theory Spec2Isabelle
  imports Main
begin

section \<open>Python values and the object store\<close>

text \<open>
  The helpers of \<^verbatim>\<open>tidecv/helpers.py\<close> work on Python dictionaries that are
  mutable and shared by reference: the importer writes fields into the records it was
  given, and the filter copies an annotation (a shallow \<^verbatim>\<open>copy\<close>) before it
  renumbers it. The embedding therefore keeps an explicit store. Immutable values are
  held by value, every \<^verbatim>\<open>dict\<close> and \<^verbatim>\<open>list\<close> object lives in the store and is
  held by its address.

  Limits of the value model: \<^verbatim>\<open>bool\<close>, \<^verbatim>\<open>int\<close> and \<^verbatim>\<open>float\<close> are kept apart
  (Python's \<^verbatim>\<open>True == 1\<close> and \<^verbatim>\<open>1.0 == 1\<close> are not modelled); a float is held as
  the text \<^verbatim>\<open>repr\<close> gives for it, since the code only copies and prints floats.
\<close>

type_synonym addr = nat

datatype pyval =
    PNone
  | PBool bool
  | PInt int
  | PFloat string
  | PStr string
  | PRef addr

datatype obj =
    ODict "string \<Rightarrow> pyval option"
  | OList "pyval list"

type_synonym heap = "obj list"

datatype error = KeyError string | TypeError | AttributeError

definition ebind :: "error + 'a \<Rightarrow> ('a \<Rightarrow> error + 'b) \<Rightarrow> error + 'b" where
  "ebind m f = (case m of Inl e \<Rightarrow> Inl e | Inr x \<Rightarrow> f x)"

text \<open>\<^verbatim>\<open>ann[k]\<close> for the object at address \<open>a\<close>: a missing key raises KeyError, a list
  indexed by a string raises TypeError. An address outside the store is no Python object;
  the model refuses it with TypeError.\<close>

definition getitem :: "heap \<Rightarrow> addr \<Rightarrow> string \<Rightarrow> error + pyval" where
  "getitem h a k =
     (if a < length h then
        (case h ! a of
           ODict m \<Rightarrow> (case m k of None \<Rightarrow> Inl (KeyError k) | Some v \<Rightarrow> Inr v)
         | OList l \<Rightarrow> Inl TypeError)
      else Inl TypeError)"

text \<open>\<^verbatim>\<open>ann[k] = v\<close>, used on objects that a read has just shown to be dictionaries.\<close>

definition setitem :: "heap \<Rightarrow> addr \<Rightarrow> string \<Rightarrow> pyval \<Rightarrow> heap" where
  "setitem h a k v =
     (case h ! a of
        ODict m \<Rightarrow> h[a := ODict (m(k \<mapsto> v))]
      | OList l \<Rightarrow> h)"

text \<open>\<^verbatim>\<open>copy(ann)\<close>: a new object with the same entries; the values it holds,
  references included, are the old ones.\<close>

definition copy :: "heap \<Rightarrow> addr \<Rightarrow> heap \<times> addr" where
  "copy h a = (h @ [h ! a], length h)"

text \<open>Lists and dictionaries are unhashable: using one as a set member or a dictionary
  key raises TypeError.\<close>

fun hashable :: "pyval \<Rightarrow> bool" where
  "hashable (PRef a) = False"
| "hashable v = True"

definition py_in :: "pyval \<Rightarrow> pyval set \<Rightarrow> error + bool" where
  "py_in v S = (if hashable v then Inr (v \<in> S) else Inl TypeError)"

text \<open>\<^verbatim>\<open>sorted\<close> over a set raises TypeError when two of its elements cannot be
  compared: numbers compare with numbers, strings with strings, nothing else compares.\<close>

fun numeric :: "pyval \<Rightarrow> bool" where
  "numeric (PBool b) = True"
| "numeric (PInt i) = True"
| "numeric (PFloat r) = True"
| "numeric v = False"

fun is_str :: "pyval \<Rightarrow> bool" where
  "is_str (PStr s) = True"
| "is_str v = False"

definition comparable :: "pyval \<Rightarrow> pyval \<Rightarrow> bool" where
  "comparable x y \<longleftrightarrow> (numeric x \<and> numeric y) \<or> (is_str x \<and> is_str y)"

definition sortable :: "pyval list \<Rightarrow> bool" where
  "sortable cs \<longleftrightarrow> list_all (\<lambda>x. list_all (\<lambda>y. x = y \<or> comparable x y) cs) cs"

text \<open>\<^verbatim>\<open>str(v)\<close> as the f-strings \<^verbatim>\<open>f"Class {i}"\<close> and \<^verbatim>\<open>f"Image {i}"\<close> use it, for
  the hashable values.\<close>

definition digit :: "nat \<Rightarrow> char" where
  "digit n = ''0123456789'' ! (n mod 10)"

function str_nat :: "nat \<Rightarrow> string" where
  "str_nat n = (if n < 10 then [digit n] else str_nat (n div 10) @ [digit n])"
  by pat_completeness auto
termination
  by (relation "measure id") auto

definition str_int :: "int \<Rightarrow> string" where
  "str_int i = (if i < 0 then CHR ''-'' # str_nat (nat (- i)) else str_nat (nat i))"

fun py_str :: "pyval \<Rightarrow> string" where
  "py_str PNone = ''None''"
| "py_str (PBool b) = (if b then ''True'' else ''False'')"
| "py_str (PInt i) = str_int i"
| "py_str (PFloat r) = r"
| "py_str (PStr s) = s"
| "py_str (PRef a) = []"

section \<open>The Data container\<close>

text \<open>Modelled from the spec: the class \<^verbatim>\<open>Data\<close> of \<^verbatim>\<open>tidecv/data.py\<close>, which is not
  among the sources. The spec gives it a name and three parts: \<^verbatim>\<open>annotations\<close>, an
  ordered sequence of annotation dictionaries; \<^verbatim>\<open>classes\<close>, a mapping from class id to
  a label; \<^verbatim>\<open>images\<close>, a mapping from image id to a record \<^verbatim>\<open>{name, anns}\<close> whose
  entries come into being when first indexed. A new container is empty. The containers
  themselves are built afresh by every function below and are held by value; the
  annotation dictionaries are held by address.\<close>

record image =
  img_name :: "string option"
  anns :: "pyval list"

record Data =
  name :: string
  annotations :: "addr list"
  classes :: "pyval \<Rightarrow> string option"
  images :: "pyval \<Rightarrow> image option"

definition Data_init :: "string \<Rightarrow> Data" where
  "Data_init n = \<lparr>name = n, annotations = [], classes = Map.empty, images = Map.empty\<rparr>"

section \<open>create_filtered_Data\<close>

text \<open>\<^verbatim>\<open>[ann for ann in data.annotations if ann["_id"] in ids_keep]\<close>\<close>

fun keep_annotations :: "heap \<Rightarrow> pyval set \<Rightarrow> addr list \<Rightarrow> error + addr list" where
  "keep_annotations h ids_keep [] = Inr []"
| "keep_annotations h ids_keep (ann # rest) =
     ebind (getitem h ann ''_id'') (\<lambda>v.
     ebind (py_in v ids_keep) (\<lambda>b.
     ebind (keep_annotations h ids_keep rest) (\<lambda>kept.
       Inr (if b then ann # kept else kept))))"

text \<open>The renumbering loop, lines 80 to 86. Its state is the store, the dictionary
  \<^verbatim>\<open>new_id_to_old_id\<close> and the list \<^verbatim>\<open>annotations\<close> (here \<open>annotations1\<close>); \<open>i\<close> is the counter of
  \<^verbatim>\<open>enumerate\<close>.\<close>

fun reindex ::
  "addr list \<Rightarrow> nat \<Rightarrow> heap \<times> (nat \<Rightarrow> pyval option) \<times> addr list
     \<Rightarrow> error + heap \<times> (nat \<Rightarrow> pyval option) \<times> addr list" where
  "reindex [] i st = Inr st"
| "reindex (ann # rest) i (h, new_id_to_old_id, annotations1) =
     ebind (getitem h ann ''_id'') (\<lambda>old.
       (case copy h ann of (h1, new_ann) \<Rightarrow>
          reindex rest (Suc i)
            (setitem h1 new_ann ''_id'' (PInt (int i)),
             new_id_to_old_id(i \<mapsto> old),
             annotations1 @ [new_ann])))"

text \<open>\<^verbatim>\<open>{ann[k] for ann in annotations}\<close>, as the list of the values met; building the set
  hashes each of them.\<close>

fun field_values :: "heap \<Rightarrow> string \<Rightarrow> addr list \<Rightarrow> error + pyval list" where
  "field_values h k [] = Inr []"
| "field_values h k (ann # rest) =
     ebind (getitem h ann k) (\<lambda>v.
       if hashable v then ebind (field_values h k rest) (\<lambda>vs. Inr (v # vs))
       else Inl TypeError)"

text \<open>Lines 91 and 92. \<^verbatim>\<open>sorted\<close> fails on elements that do not compare; otherwise it
  fixes only the order in which the labels are stored, which a map does not record.\<close>

definition class_labels :: "pyval list \<Rightarrow> error + (pyval \<Rightarrow> string option)" where
  "class_labels cs =
     (if sortable cs
      then Inr (fold (\<lambda>i m. m(i \<mapsto> ''Class '' @ py_str i)) (remdups cs) Map.empty)
      else Inl TypeError)"

text \<open>\<^verbatim>\<open>d[k].append(v)\<close> on a \<^verbatim>\<open>defaultdict(list)\<close>.\<close>

definition append_to ::
  "(pyval \<Rightarrow> pyval list option) \<Rightarrow> pyval \<Rightarrow> pyval \<Rightarrow> (pyval \<Rightarrow> pyval list option)" where
  "append_to d k v = d(k \<mapsto> (case d k of None \<Rightarrow> [] | Some l \<Rightarrow> l) @ [v])"

text \<open>Lines 95 to 97: \<^verbatim>\<open>image_ids[ann['image_id']].append(ann["_id"])\<close>. The key is
  read and hashed first, then the id is read.\<close>

fun group_by_image ::
  "heap \<Rightarrow> addr list \<Rightarrow> (pyval \<Rightarrow> pyval list option) \<Rightarrow> error + (pyval \<Rightarrow> pyval list option)" where
  "group_by_image h [] image_ids = Inr image_ids"
| "group_by_image h (ann # rest) image_ids =
     ebind (getitem h ann ''image_id'') (\<lambda>k.
       if hashable k then
         ebind (getitem h ann ''_id'') (\<lambda>v.
           group_by_image h rest (append_to image_ids k v))
       else Inl TypeError)"

text \<open>Lines 98 to 100: every key of \<^verbatim>\<open>image_ids\<close> gets its name and its list.\<close>

definition image_entries :: "(pyval \<Rightarrow> pyval list option) \<Rightarrow> (pyval \<Rightarrow> image option)" where
  "image_entries image_ids =
     (\<lambda>i. case image_ids i of
            None \<Rightarrow> None
          | Some l \<Rightarrow> Some \<lparr>img_name = Some (''Image '' @ py_str i), anns = l\<rparr>)"

definition create_filtered_Data ::
  "heap \<Rightarrow> Data \<Rightarrow> pyval set \<Rightarrow> string
     \<Rightarrow> error + heap \<times> Data \<times> (nat \<Rightarrow> pyval option)" where
  "create_filtered_Data h data ids_keep data_name =
     ebind (keep_annotations h ids_keep (annotations data)) (\<lambda>kept.
     ebind (reindex kept 0 (h, Map.empty, [])) (\<lambda>(h1, new_id_to_old_id, annotations1).
     ebind (field_values h1 ''class'' annotations1) (\<lambda>cs.
     ebind (class_labels cs) (\<lambda>classes1.
     ebind (group_by_image h1 annotations1 Map.empty) (\<lambda>image_ids.
       Inr (h1,
            (Data_init data_name)
              \<lparr>annotations := annotations1,
               classes := classes1,
               images := image_entries image_ids\<rparr>,
            new_id_to_old_id))))))"

section \<open>enlarge_dataset_to_respect_TIDE\<close>

text \<open>\<^verbatim>\<open>k in v\<close> for a string \<open>k\<close>: key membership in a dictionary, element
  membership in a list, substring test in a string, TypeError on anything else.\<close>

definition is_substring :: "string \<Rightarrow> string \<Rightarrow> bool" where
  "is_substring k s \<longleftrightarrow> list_ex (\<lambda>i. take (length k) (drop i s) = k) [0..<Suc (length s)]"

definition py_contains :: "heap \<Rightarrow> pyval \<Rightarrow> string \<Rightarrow> error + bool" where
  "py_contains h v k =
     (case v of
        PRef a \<Rightarrow>
          (if a < length h then
             (case h ! a of
                ODict m \<Rightarrow> Inr (m k \<noteq> None)
              | OList l \<Rightarrow> Inr (PStr k \<in> set l))
           else Inl TypeError)
      | PStr s \<Rightarrow> Inr (is_substring k s)
      | _ \<Rightarrow> Inl TypeError)"

text \<open>\<^verbatim>\<open>v[k]\<close> for a value \<open>v\<close>: only a dictionary can be indexed by a string.\<close>

definition getitem_val :: "heap \<Rightarrow> pyval \<Rightarrow> string \<Rightarrow> error + pyval" where
  "getitem_val h v k = (case v of PRef a \<Rightarrow> getitem h a k | _ \<Rightarrow> Inl TypeError)"

text \<open>\<^verbatim>\<open>v.get(k)\<close>: None when the key is absent; only a dictionary has the method.\<close>

definition dict_get :: "heap \<Rightarrow> pyval \<Rightarrow> string \<Rightarrow> error + pyval" where
  "dict_get h v k =
     (case v of
        PRef a \<Rightarrow>
          (if a < length h then
             (case h ! a of
                ODict m \<Rightarrow> Inr (case m k of None \<Rightarrow> PNone | Some x \<Rightarrow> x)
              | OList l \<Rightarrow> Inl AttributeError)
           else Inl TypeError)
      | _ \<Rightarrow> Inl AttributeError)"

text \<open>A set comprehension \<^verbatim>\<open>{e(x) for x in xs if c(x)}\<close>: \<open>f x\<close> is the error raised
  at \<open>x\<close>, or \<open>None\<close> when the condition fails, or the element added.\<close>

fun comprehension :: "(addr \<Rightarrow> error + pyval option) \<Rightarrow> addr list \<Rightarrow> error + pyval set" where
  "comprehension f [] = Inr {}"
| "comprehension f (x # xs) =
     ebind (f x) (\<lambda>r.
     ebind (comprehension f xs) (\<lambda>S.
       Inr (case r of None \<Rightarrow> S | Some v \<Rightarrow> insert v S)))"

text \<open>Line 124, for one prediction:
  \<^verbatim>\<open>pred['info']['matched_with'] ... if "matched_with" in pred['info'] and pred["_id"] in preds_keep\<close>\<close>

definition gt_link :: "heap \<Rightarrow> pyval set \<Rightarrow> addr \<Rightarrow> error + pyval option" where
  "gt_link h preds_keep pred =
     ebind (getitem h pred ''info'') (\<lambda>info.
     ebind (py_contains h info ''matched_with'') (\<lambda>has.
       if \<not> has then Inr None
       else
         ebind (getitem h pred ''_id'') (\<lambda>i.
         ebind (py_in i preds_keep) (\<lambda>b.
           if \<not> b then Inr None
           else
             ebind (getitem h pred ''info'') (\<lambda>info1.
             ebind (getitem_val h info1 ''matched_with'') (\<lambda>g.
               if hashable g then Inr (Some g) else Inl TypeError))))))"

text \<open>Line 128, for one prediction:
  \<^verbatim>\<open>pred['_id'] ... if pred['info'].get("matched_with") in filetered_gts\<close>\<close>

definition pred_link :: "heap \<Rightarrow> pyval set \<Rightarrow> addr \<Rightarrow> error + pyval option" where
  "pred_link h filetered_gts pred =
     ebind (getitem h pred ''info'') (\<lambda>info.
     ebind (dict_get h info ''matched_with'') (\<lambda>g.
     ebind (py_in g filetered_gts) (\<lambda>b.
       if \<not> b then Inr None
       else
         ebind (getitem h pred ''_id'') (\<lambda>i.
           if hashable i then Inr (Some i) else Inl TypeError))))"

definition enlarge_dataset_to_respect_TIDE ::
  "heap \<Rightarrow> Data \<Rightarrow> Data \<Rightarrow> pyval set \<Rightarrow> pyval set
     \<Rightarrow> error + heap \<times> Data \<times> Data \<times> (nat \<Rightarrow> pyval option) \<times> (nat \<Rightarrow> pyval option)" where
  "enlarge_dataset_to_respect_TIDE h gts preds gts_keep preds_keep =
     ebind (comprehension (gt_link h preds_keep) (annotations preds)) (\<lambda>assoc_gts.
     (let filetered_gts = gts_keep \<union> assoc_gts in
     ebind (comprehension (pred_link h filetered_gts) (annotations preds)) (\<lambda>assoc_preds.
     (let filetered_preds = assoc_preds \<union> preds_keep in
     ebind (create_filtered_Data h gts filetered_gts ''filtered_data'')
       (\<lambda>(h1, gts_enlarged, gts_new_id_to_old_id).
     ebind (create_filtered_Data h1 preds filetered_preds ''filtered_data'')
       (\<lambda>(h2, preds_enlarged, preds_new_it_to_old_id).
       Inr (h2, gts_enlarged, preds_enlarged,
            gts_new_id_to_old_id, preds_new_it_to_old_id)))))))"

section \<open>json_to_Data\<close>

text \<open>The importer starts from the value \<^verbatim>\<open>json.load\<close> returned: a list \<open>data\<close> of
  record objects in the store. Reading the file is outside the model.\<close>

text \<open>Truth value of a Python value, as \<^verbatim>\<open>if ann["is_gold"]\<close> takes it.\<close>

definition truthy :: "heap \<Rightarrow> pyval \<Rightarrow> bool" where
  "truthy h v =
     (case v of
        PNone \<Rightarrow> False
      | PBool b \<Rightarrow> b
      | PInt i \<Rightarrow> i \<noteq> 0
      | PFloat r \<Rightarrow> r \<noteq> ''0.0'' \<and> r \<noteq> ''-0.0''
      | PStr s \<Rightarrow> s \<noteq> []
      | PRef a \<Rightarrow> (case h ! a of ODict m \<Rightarrow> m \<noteq> Map.empty | OList l \<Rightarrow> l \<noteq> []))"

text \<open>\<^verbatim>\<open>[ann for ann in data if ann[tag]]\<close>: the list holds the records themselves, not
  copies.\<close>

fun tagged :: "heap \<Rightarrow> string \<Rightarrow> addr list \<Rightarrow> error + addr list" where
  "tagged h tag [] = Inr []"
| "tagged h tag (ann # rest) =
     ebind (getitem h ann tag) (\<lambda>v.
     ebind (tagged h tag rest) (\<lambda>r.
       Inr (if truthy h v then ann # r else r)))"

text \<open>Lines 25 to 32: the loop over the gold records writes into each record in place.\<close>

fun gt_loop ::
  "addr list \<Rightarrow> nat \<Rightarrow> heap \<times> (pyval \<Rightarrow> pyval list option)
     \<Rightarrow> error + heap \<times> (pyval \<Rightarrow> pyval list option)" where
  "gt_loop [] i st = Inr st"
| "gt_loop (ann # rest) i (h, gt_image_ids) =
     (let h1 = setitem h ann ''_id'' (PInt (int i));
          h2 = setitem h1 ann ''mask'' PNone;
          h3 = setitem h2 ann ''ignore'' (PBool False)
      in
        ebind (getitem h3 ann ''gold'') (\<lambda>gold.
        (let h4 = setitem h3 ann ''class'' gold in
        ebind (getitem h4 ann ''bbox_xywh'') (\<lambda>box.
        (let h5 = setitem h4 ann ''bbox'' box in
        ebind (getitem h5 ann ''image_id'') (\<lambda>k.
          if hashable k then
            ebind (getitem h5 ann ''_id'') (\<lambda>v.
              gt_loop rest (Suc i) (h5, append_to gt_image_ids k v))
          else Inl TypeError))))))"

text \<open>Lines 49 to 57: the same loop over the predicted records, with the score.\<close>

fun pred_loop ::
  "addr list \<Rightarrow> nat \<Rightarrow> heap \<times> (pyval \<Rightarrow> pyval list option)
     \<Rightarrow> error + heap \<times> (pyval \<Rightarrow> pyval list option)" where
  "pred_loop [] i st = Inr st"
| "pred_loop (pred # rest) i (h, pred_image_ids) =
     (let h1 = setitem h pred ''_id'' (PInt (int i));
          h2 = setitem h1 pred ''mask'' PNone;
          h3 = setitem h2 pred ''ignore'' (PBool False)
      in
        ebind (getitem h3 pred ''pred'') (\<lambda>cls.
        (let h4 = setitem h3 pred ''class'' cls in
        ebind (getitem h4 pred ''confidence'') (\<lambda>conf.
        (let h5 = setitem h4 pred ''score'' conf in
        ebind (getitem h5 pred ''bbox_xywh'') (\<lambda>box.
        (let h6 = setitem h5 pred ''bbox'' box in
        ebind (getitem h6 pred ''image_id'') (\<lambda>k.
          if hashable k then
            ebind (getitem h6 pred ''_id'') (\<lambda>v.
              pred_loop rest (Suc i) (h6, append_to pred_image_ids k v))
          else Inl TypeError))))))))"

definition json_to_Data :: "heap \<Rightarrow> addr list \<Rightarrow> error + heap \<times> Data \<times> Data" where
  "json_to_Data h data =
     ebind (tagged h ''is_gold'' data) (\<lambda>gt_annotations.
     ebind (gt_loop gt_annotations 0 (h, Map.empty)) (\<lambda>(h1, gt_image_ids).
     ebind (field_values h1 ''class'' gt_annotations) (\<lambda>gt_cs.
     ebind (class_labels gt_cs) (\<lambda>gt_classes.
     (let gts = (Data_init ''test_gt'')
                  \<lparr>annotations := gt_annotations,
                   classes := gt_classes,
                   images := image_entries gt_image_ids\<rparr> in
     ebind (tagged h1 ''is_pred'' data) (\<lambda>pred_annotations.
     ebind (pred_loop pred_annotations 0 (h1, Map.empty)) (\<lambda>(h2, pred_image_ids).
     ebind (field_values h2 ''class'' pred_annotations) (\<lambda>pred_cs.
     ebind (class_labels pred_cs) (\<lambda>pred_classes.
     (let preds = (Data_init ''test_pred'')
                    \<lparr>annotations := pred_annotations,
                     classes := pred_classes,
                     images := image_entries pred_image_ids\<rparr> in
       Inr (h2, gts, preds)))))))))))"

section \<open>The invariants of an indexed dataset\<close>

text \<open>Reading a field without raising: \<open>None\<close> where \<^verbatim>\<open>ann[k]\<close> would raise.\<close>

definition field :: "heap \<Rightarrow> addr \<Rightarrow> string \<Rightarrow> pyval option" where
  "field h a k = (case getitem h a k of Inl e \<Rightarrow> None | Inr v \<Rightarrow> Some v)"

definition is_dict :: "heap \<Rightarrow> addr \<Rightarrow> bool" where
  "is_dict h a \<longleftrightarrow> a < length h \<and> (case h ! a of ODict m \<Rightarrow> True | OList l \<Rightarrow> False)"

definition dict_of :: "heap \<Rightarrow> addr \<Rightarrow> (string \<Rightarrow> pyval option)" where
  "dict_of h a = (case h ! a of ODict m \<Rightarrow> m | OList l \<Rightarrow> Map.empty)"

definition values_of :: "heap \<Rightarrow> string \<Rightarrow> addr list \<Rightarrow> pyval list" where
  "values_of h k as = List.map_filter (\<lambda>a. field h a k) as"

definition has_hashable :: "heap \<Rightarrow> string \<Rightarrow> addr \<Rightarrow> bool" where
  "has_hashable h k a \<longleftrightarrow> (case field h a k of None \<Rightarrow> False | Some v \<Rightarrow> hashable v)"

text \<open>The data model of an annotation: a dictionary with an \<^verbatim>\<open>_id\<close>, an
  \<^verbatim>\<open>image_id\<close> and a \<^verbatim>\<open>class\<close>, all hashable, the classes of one dataset being
  of one kind (integers or labels), so that they sort.\<close>

definition data_model :: "heap \<Rightarrow> Data \<Rightarrow> bool" where
  "data_model h d \<longleftrightarrow>
     list_all (\<lambda>a. has_hashable h ''_id'' a \<and> has_hashable h ''image_id'' a
                   \<and> has_hashable h ''class'' a) (annotations d)
     \<and> sortable (values_of h ''class'' (annotations d))"

text \<open>Invariant 1: the annotation at position \<open>i\<close> has \<^verbatim>\<open>_id\<close> \<open>i\<close>, so the ids are
  exactly \<open>0, ..., N-1\<close>.\<close>

definition ids_dense :: "heap \<Rightarrow> Data \<Rightarrow> bool" where
  "ids_dense h d \<longleftrightarrow>
     map (\<lambda>a. field h a ''_id'') (annotations d)
       = map (\<lambda>i. Some (PInt (int i))) [0..<length (annotations d)]"

text \<open>Invariant 2: the keys of \<^verbatim>\<open>images\<close> are the image ids of the annotations, and
  the \<^verbatim>\<open>anns\<close> of an image are the ids of the annotations of that image.\<close>

definition ids_on_image :: "heap \<Rightarrow> pyval \<Rightarrow> addr list \<Rightarrow> pyval list" where
  "ids_on_image h k as = values_of h ''_id'' (filter (\<lambda>a. field h a ''image_id'' = Some k) as)"

definition images_consistent :: "heap \<Rightarrow> Data \<Rightarrow> bool" where
  "images_consistent h d \<longleftrightarrow>
     dom (images d) = set (values_of h ''image_id'' (annotations d))
     \<and> (\<forall>k img. images d k = Some img
           \<longrightarrow> set (anns img) = set (ids_on_image h k (annotations d)))"

text \<open>Invariant 3: the keys of \<^verbatim>\<open>classes\<close> are the classes of the annotations.\<close>

definition classes_consistent :: "heap \<Rightarrow> Data \<Rightarrow> bool" where
  "classes_consistent h d \<longleftrightarrow> dom (classes d) = set (values_of h ''class'' (annotations d))"

definition invariants :: "heap \<Rightarrow> Data \<Rightarrow> bool" where
  "invariants h d \<longleftrightarrow>
     data_model h d \<and> ids_dense h d \<and> images_consistent h d \<and> classes_consistent h d"

section \<open>Auxiliary notions for the proofs\<close>

text \<open>Whether the \<^verbatim>\<open>_id\<close> of the annotation at \<open>a\<close> is in the set \<open>K\<close>.\<close>

definition id_in :: "heap \<Rightarrow> pyval set \<Rightarrow> addr \<Rightarrow> bool" where
  "id_in h K a \<longleftrightarrow> (case field h a ''_id'' of None \<Rightarrow> False | Some v \<Rightarrow> v \<in> K)"

text \<open>The objects the renumbering loop allocates for the annotations \<open>as\<close>, counting
  from \<open>i\<close>.\<close>

fun renumbered :: "heap \<Rightarrow> addr list \<Rightarrow> nat \<Rightarrow> obj list" where
  "renumbered h [] i = []"
| "renumbered h (a # as) i =
     ODict ((dict_of h a)(''_id'' \<mapsto> PInt (int i))) # renumbered h as (Suc i)"

text \<open>The annotations the filter keeps, the addresses of their copies, and the store,
  the dataset and the id map it returns, written out.\<close>

definition kept :: "heap \<Rightarrow> Data \<Rightarrow> pyval set \<Rightarrow> addr list" where
  "kept h d K = filter (id_in h K) (annotations d)"

definition fresh :: "heap \<Rightarrow> nat \<Rightarrow> addr list" where
  "fresh h n = [length h ..< length h + n]"

definition filtered_heap :: "heap \<Rightarrow> Data \<Rightarrow> pyval set \<Rightarrow> heap" where
  "filtered_heap h d K = h @ renumbered h (kept h d K) 0"

definition filtered_map :: "heap \<Rightarrow> Data \<Rightarrow> pyval set \<Rightarrow> (nat \<Rightarrow> pyval option)" where
  "filtered_map h d K =
     (\<lambda>j. if j < length (kept h d K) then field h (kept h d K ! j) ''_id'' else None)"

definition filtered_classes :: "heap \<Rightarrow> Data \<Rightarrow> pyval set \<Rightarrow> (pyval \<Rightarrow> string option)" where
  "filtered_classes h d K =
     (\<lambda>c. if c \<in> set (values_of h ''class'' (kept h d K))
          then Some (''Class '' @ py_str c) else None)"

definition filtered_image_ids :: "heap \<Rightarrow> Data \<Rightarrow> pyval set \<Rightarrow> (pyval \<Rightarrow> pyval list option)" where
  "filtered_image_ids h d K =
     (\<lambda>k. if ids_on_image (filtered_heap h d K) k (fresh h (length (kept h d K))) = [] then None
          else Some (ids_on_image (filtered_heap h d K) k (fresh h (length (kept h d K)))))"

definition filtered_data :: "heap \<Rightarrow> Data \<Rightarrow> pyval set \<Rightarrow> string \<Rightarrow> Data" where
  "filtered_data h d K nm =
     \<lparr>name = nm,
      annotations = fresh h (length (kept h d K)),
      classes = filtered_classes h d K,
      images = image_entries (filtered_image_ids h d K)\<rparr>"

section \<open>A small store with two datasets\<close>

text \<open>One ground truth on image \<^verbatim>\<open>"a"\<close>; two predictions, the first matched with the
  ground truth, the second unmatched and on image \<^verbatim>\<open>"b"\<close>. The box list at address 0
  is shared by two annotations, as the store allows. The last object is a prediction that
  the analysis engine has not seen: it has no \<^verbatim>\<open>info\<close>.\<close>

definition store0 :: heap where
  "store0 =
     [OList [PInt 0, PInt 0, PInt 1, PInt 1],
      OList [PInt 0, PInt 0, PInt 2, PInt 2],
      ODict [''matched_with'' \<mapsto> PInt 0],
      ODict [''_id'' \<mapsto> PInt 0, ''image_id'' \<mapsto> PStr ''a'', ''class'' \<mapsto> PInt 5,
             ''bbox'' \<mapsto> PRef 0],
      ODict [''_id'' \<mapsto> PInt 0, ''image_id'' \<mapsto> PStr ''a'', ''class'' \<mapsto> PInt 5,
             ''score'' \<mapsto> PFloat ''0.9'', ''bbox'' \<mapsto> PRef 0, ''info'' \<mapsto> PRef 2],
      ODict Map.empty,
      ODict [''_id'' \<mapsto> PInt 1, ''image_id'' \<mapsto> PStr ''b'', ''class'' \<mapsto> PInt 7,
             ''score'' \<mapsto> PFloat ''0.5'', ''bbox'' \<mapsto> PRef 1, ''info'' \<mapsto> PRef 5],
      ODict [''_id'' \<mapsto> PInt 1, ''image_id'' \<mapsto> PStr ''b'', ''class'' \<mapsto> PInt 7,
             ''score'' \<mapsto> PFloat ''0.4'', ''bbox'' \<mapsto> PRef 1]]"

definition gts0 :: Data where
  "gts0 =
     \<lparr>name = ''test_gt'',
      annotations = [3],
      classes = [PInt 5 \<mapsto> ''Class 5''],
      images = [PStr ''a'' \<mapsto> \<lparr>img_name = Some ''Image a'', anns = [PInt 0]\<rparr>]\<rparr>"

text \<open>The predictions with the second one replaced by the one that has no
  \<^verbatim>\<open>info\<close>.\<close>

definition preds_raw :: Data where
  "preds_raw =
     \<lparr>name = ''test_pred'',
      annotations = [4, 7],
      classes = [PInt 5 \<mapsto> ''Class 5'', PInt 7 \<mapsto> ''Class 7''],
      images = [PStr ''a'' \<mapsto> \<lparr>img_name = Some ''Image a'', anns = [PInt 0]\<rparr>,
                PStr ''b'' \<mapsto> \<lparr>img_name = Some ''Image b'', anns = [PInt 1]\<rparr>]\<rparr>"

definition preds0 :: Data where
  "preds0 =
     \<lparr>name = ''test_pred'',
      annotations = [4, 6],
      classes = [PInt 5 \<mapsto> ''Class 5'', PInt 7 \<mapsto> ''Class 7''],
      images = [PStr ''a'' \<mapsto> \<lparr>img_name = Some ''Image a'', anns = [PInt 0]\<rparr>,
                PStr ''b'' \<mapsto> \<lparr>img_name = Some ''Image b'', anns = [PInt 1]\<rparr>]\<rparr>"

section \<open>Shared mutable state\<close>

text \<open>The addresses an object holds, and the addresses that can be reached from a set of
  addresses by following references: the mutable state behind a dataset is what can be
  reached from its annotations.\<close>

definition obj_refs :: "obj \<Rightarrow> addr set" where
  "obj_refs ob = (case ob of ODict m \<Rightarrow> {a. PRef a \<in> ran m} | OList l \<Rightarrow> {a. PRef a \<in> set l})"

inductive_set reachable :: "heap \<Rightarrow> addr set \<Rightarrow> addr set" for h :: heap and A :: "addr set" where
  root: "a \<in> A \<Longrightarrow> a \<in> reachable h A"
| step: "a \<in> reachable h A \<Longrightarrow> a < length h \<Longrightarrow> b \<in> obj_refs (h ! a) \<Longrightarrow> b \<in> reachable h A"

definition state_of :: "heap \<Rightarrow> Data \<Rightarrow> addr set" where
  "state_of h d = reachable h (set (annotations d))"

section \<open>Datasets in the form the helpers build\<close>

text \<open>A list of ids in ascending order.\<close>

definition ascending :: "pyval list \<Rightarrow> bool" where
  "ascending l \<longleftrightarrow> (\<exists>js. l = map (\<lambda>j. PInt (int j)) js \<and> sorted_wrt (<) js)"

text \<open>The labels, names and lists as lines 91 to 100 write them: \<^verbatim>\<open>"Class {c}"\<close>,
  \<^verbatim>\<open>"Image {i}"\<close>, the ids of an image in ascending order.\<close>

definition synthesized :: "Data \<Rightarrow> bool" where
  "synthesized d \<longleftrightarrow>
     (\<forall>c s. classes d c = Some s \<longrightarrow> s = ''Class '' @ py_str c)
     \<and> (\<forall>k img. images d k = Some img \<longrightarrow>
           img_name img = Some (''Image '' @ py_str k) \<and> ascending (anns img))"

text \<open>The ground truth of the example store with the labels and file names of a dataset
  that was loaded elsewhere.\<close>

definition gts_named :: Data where
  "gts_named =
     \<lparr>name = ''coco'',
      annotations = [3],
      classes = [PInt 5 \<mapsto> ''cat''],
      images = [PStr ''a'' \<mapsto> \<lparr>img_name = Some ''a.jpg'', anns = [PInt 0]\<rparr>]\<rparr>"

text \<open>The ids \<open>0, ..., N-1\<close> of a dataset with \<open>N\<close> annotations.\<close>

definition all_ids :: "Data \<Rightarrow> pyval set" where
  "all_ids d = (\<lambda>j. PInt (int j)) ` {0..<length (annotations d)}"

section \<open>The matching links of the predictions\<close>

text \<open>The \<^verbatim>\<open>info\<close> mapping of the prediction at \<open>a\<close>, when the field holds a dictionary;
  its \<^verbatim>\<open>matched_with\<close> entry, when there is one; and what
  \<^verbatim>\<open>pred['info'].get("matched_with")\<close> gives.\<close>

definition info_of :: "heap \<Rightarrow> addr \<Rightarrow> (string \<Rightarrow> pyval option) option" where
  "info_of h a =
     (case field h a ''info'' of
        Some (PRef r) \<Rightarrow> if is_dict h r then Some (dict_of h r) else None
      | _ \<Rightarrow> None)"

definition has_info :: "heap \<Rightarrow> addr \<Rightarrow> bool" where
  "has_info h a \<longleftrightarrow> info_of h a \<noteq> None"

definition matched_with :: "heap \<Rightarrow> addr \<Rightarrow> pyval option" where
  "matched_with h a = (case info_of h a of None \<Rightarrow> None | Some m \<Rightarrow> m ''matched_with'')"

definition get_matched :: "heap \<Rightarrow> addr \<Rightarrow> pyval" where
  "get_matched h a = (case matched_with h a of None \<Rightarrow> PNone | Some g \<Rightarrow> g)"

text \<open>The sets \<^verbatim>\<open>assoc_gts\<close> and \<^verbatim>\<open>assoc_preds\<close> of lines 124 and 128, written out.\<close>

definition assoc_gts_set :: "heap \<Rightarrow> Data \<Rightarrow> pyval set \<Rightarrow> pyval set" where
  "assoc_gts_set h preds preds_keep =
     {g. \<exists>a\<in>set (annotations preds). matched_with h a = Some g \<and> id_in h preds_keep a}"

definition assoc_preds_set :: "heap \<Rightarrow> Data \<Rightarrow> pyval set \<Rightarrow> pyval set" where
  "assoc_preds_set h preds filetered_gts =
     {i. \<exists>a\<in>set (annotations preds). get_matched h a \<in> filetered_gts
           \<and> field h a ''_id'' = Some i}"

text \<open>Two datasets, each in its store, with equal contents: the annotations are equal
  dictionaries position by position, and the name, classes and images are equal.\<close>

definition same_data :: "heap \<Rightarrow> Data \<Rightarrow> heap \<Rightarrow> Data \<Rightarrow> bool" where
  "same_data h d h' d' \<longleftrightarrow>
     name d = name d'
     \<and> map (\<lambda>a. h ! a) (annotations d) = map (\<lambda>a. h' ! a) (annotations d')
     \<and> classes d = classes d' \<and> images d = images d'"

text \<open>Every prediction has an \<^verbatim>\<open>info\<close> mapping, and what it gives for
  \<^verbatim>\<open>matched_with\<close> is hashable.\<close>

definition links_ok :: "heap \<Rightarrow> Data \<Rightarrow> bool" where
  "links_ok h preds \<longleftrightarrow>
     (\<forall>a\<in>set (annotations preds). has_info h a \<and> hashable (get_matched h a))"

text \<open>The sets \<^verbatim>\<open>filetered_gts\<close> and \<^verbatim>\<open>filetered_preds\<close> of lines 127 and 129.\<close>

definition filetered_gts_set :: "heap \<Rightarrow> Data \<Rightarrow> pyval set \<Rightarrow> pyval set \<Rightarrow> pyval set" where
  "filetered_gts_set h preds gts_keep preds_keep = gts_keep \<union> assoc_gts_set h preds preds_keep"

definition filetered_preds_set :: "heap \<Rightarrow> Data \<Rightarrow> pyval set \<Rightarrow> pyval set \<Rightarrow> pyval set" where
  "filetered_preds_set h preds gts_keep preds_keep =
     assoc_preds_set h preds (filetered_gts_set h preds gts_keep preds_keep) \<union> preds_keep"

section \<open>Records as the importer receives them\<close>

text \<open>The two records of the scenario of the spec, as \<^verbatim>\<open>json.load\<close> leaves them in the
  store: the box lists at addresses 0 and 1, the \<^verbatim>\<open>info\<close> mapping at 2, the gold
  record at 3 and the predicted record at 4.\<close>

definition scenario_store :: heap where
  "scenario_store =
     [OList [PInt 0, PInt 0, PInt 1, PInt 1],
      OList [PInt 0, PInt 0, PInt 1, PInt 1],
      ODict [''matched_with'' \<mapsto> PInt 0],
      ODict [''id'' \<mapsto> PInt 1, ''is_gold'' \<mapsto> PBool True, ''is_pred'' \<mapsto> PBool False,
             ''gold'' \<mapsto> PInt 5, ''image_id'' \<mapsto> PStr ''a'', ''bbox_xywh'' \<mapsto> PRef 0],
      ODict [''id'' \<mapsto> PInt 2, ''is_gold'' \<mapsto> PBool False, ''is_pred'' \<mapsto> PBool True,
             ''pred'' \<mapsto> PInt 5, ''image_id'' \<mapsto> PStr ''a'', ''bbox_xywh'' \<mapsto> PRef 1,
             ''confidence'' \<mapsto> PFloat ''0.9'', ''info'' \<mapsto> PRef 2]]"

definition scenario_data :: "addr list" where
  "scenario_data = [3, 4]"

text \<open>Two records on one image: the first is gold only, the second carries both tags,
  with gold label 2 and predicted label 3.\<close>

definition both_store :: heap where
  "both_store =
     [OList [PInt 0, PInt 0, PInt 1, PInt 1],
      OList [PInt 0, PInt 0, PInt 2, PInt 2],
      ODict [''is_gold'' \<mapsto> PBool True, ''is_pred'' \<mapsto> PBool False,
             ''gold'' \<mapsto> PInt 1, ''image_id'' \<mapsto> PStr ''a'', ''bbox_xywh'' \<mapsto> PRef 0],
      ODict [''is_gold'' \<mapsto> PBool True, ''is_pred'' \<mapsto> PBool True,
             ''gold'' \<mapsto> PInt 2, ''pred'' \<mapsto> PInt 3, ''confidence'' \<mapsto> PFloat ''0.9'',
             ''image_id'' \<mapsto> PStr ''a'', ''bbox_xywh'' \<mapsto> PRef 1]]"

definition both_data :: "addr list" where
  "both_data = [2, 3]"

section \<open>Basic facts about values and the store\<close>

lemma ebind_Inl [simp]: "ebind (Inl e) f = Inl e"
  by (simp add: ebind_def)

lemma ebind_Inr [simp]: "ebind (Inr x) f = f x"
  by (simp add: ebind_def)

lemma ebind_eq_Inr: "ebind m f = Inr y \<longleftrightarrow> (\<exists>x. m = Inr x \<and> f x = Inr y)"
  by (cases m) simp_all

lemma field_Some_iff:
  "field h a k = Some v \<longleftrightarrow> a < length h \<and> (\<exists>m. h ! a = ODict m \<and> m k = Some v)"
  by (auto simp: field_def getitem_def split: obj.splits option.splits)

lemma getitem_Inr_iff: "getitem h a k = Inr v \<longleftrightarrow> field h a k = Some v"
  by (auto simp: field_def split: sum.splits)

lemma field_dict_of: "is_dict h a \<Longrightarrow> field h a k = dict_of h a k"
  by (auto simp: is_dict_def dict_of_def field_def getitem_def split: obj.splits option.splits)

lemma field_Some_is_dict: "field h a k = Some v \<Longrightarrow> is_dict h a"
  by (auto simp: field_Some_iff is_dict_def)

lemma has_hashable_iff: "has_hashable h k a \<longleftrightarrow> (\<exists>v. field h a k = Some v \<and> hashable v)"
  by (auto simp: has_hashable_def split: option.splits)

lemma field_append [simp]: "a < length h \<Longrightarrow> field (h @ ext) a k = field h a k"
  by (simp add: field_def getitem_def nth_append)

lemma dict_of_append [simp]: "a < length h \<Longrightarrow> dict_of (h @ ext) a = dict_of h a"
  by (simp add: dict_of_def nth_append)

lemma is_dict_append [simp]: "a < length h \<Longrightarrow> is_dict (h @ ext) a = is_dict h a"
  by (simp add: is_dict_def nth_append)

lemma is_dict_less: "is_dict h a \<Longrightarrow> a < length h"
  by (simp add: is_dict_def)

lemma is_dict_nth: "is_dict h a \<Longrightarrow> h ! a = ODict (dict_of h a)"
  by (auto simp: is_dict_def dict_of_def split: obj.splits)

lemma py_in_hashable [simp]: "hashable v \<Longrightarrow> py_in v S = Inr (v \<in> S)"
  by (simp add: py_in_def)

lemma py_in_Inr_iff: "py_in v S = Inr b \<longleftrightarrow> hashable v \<and> b = (v \<in> S)"
  by (auto simp: py_in_def)

subsection \<open>keep_annotations\<close>

lemma keep_annotations_cong:
  "(\<And>a. a \<in> set as \<Longrightarrow> id_in h K a = id_in h K' a)
    \<Longrightarrow> keep_annotations h K as = keep_annotations h K' as"
proof (induction as)
  case Nil
  then show ?case by simp
next
  case (Cons a as)
  have rest: "keep_annotations h K as = keep_annotations h K' as"
    using Cons by simp
  show ?case
  proof (cases "getitem h a ''_id''")
    case (Inl e)
    then show ?thesis by simp
  next
    case (Inr v)
    then have "field h a ''_id'' = Some v" by (simp add: getitem_Inr_iff)
    with Cons.prems[of a] have "(v \<in> K) = (v \<in> K')" by (simp add: id_in_def)
    then have "py_in v K = py_in v K'" by (simp add: py_in_def)
    with Inr rest show ?thesis by simp
  qed
qed

lemma keep_annotations_ok:
  "list_all (has_hashable h ''_id'') as
    \<Longrightarrow> keep_annotations h K as = Inr (filter (id_in h K) as)"
proof (induction as)
  case Nil
  then show ?case by simp
next
  case (Cons a as)
  then obtain v where v: "field h a ''_id'' = Some v" "hashable v"
    by (auto simp: has_hashable_iff)
  then have "getitem h a ''_id'' = Inr v" by (simp add: getitem_Inr_iff)
  with v Cons show ?case by (simp add: id_in_def)
qed

lemma keep_annotations_Inr:
  "keep_annotations h K as = Inr sel
    \<Longrightarrow> list_all (has_hashable h ''_id'') as \<and> sel = filter (id_in h K) as"
proof (induction as arbitrary: sel)
  case Nil
  then show ?case by simp
next
  case (Cons a as)
  from Cons.prems obtain v b kept where
    v: "getitem h a ''_id'' = Inr v" and b: "py_in v K = Inr b"
    and kept: "keep_annotations h K as = Inr kept"
    and sel: "sel = (if b then a # kept else kept)"
    by (auto simp: ebind_eq_Inr)
  from v have f: "field h a ''_id'' = Some v" by (simp add: getitem_Inr_iff)
  from b have hv: "hashable v" and bv: "b = (v \<in> K)" by (simp_all add: py_in_Inr_iff)
  from Cons.IH[OF kept] f hv bv sel show ?case
    by (simp add: has_hashable_iff id_in_def)
qed

subsection \<open>reindex\<close>

lemma length_renumbered [simp]: "length (renumbered h as i) = length as"
  by (induction as arbitrary: i) simp_all

lemma nth_renumbered:
  "j < length as \<Longrightarrow>
     renumbered h as i ! j = ODict ((dict_of h (as ! j))(''_id'' \<mapsto> PInt (int (i + j))))"
proof (induction as arbitrary: i j)
  case Nil
  then show ?case by simp
next
  case (Cons a as)
  show ?case
  proof (cases j)
    case 0
    then show ?thesis by (simp add: fun_eq_iff)
  next
    case (Suc n)
    then have "n < length as" using Cons.prems by simp
    from Cons.IH[OF this, of "Suc i"] Suc show ?thesis by (simp add: fun_eq_iff)
  qed
qed

lemma upt_add_Suc: "[n..<n + Suc k] = n # [Suc n..<Suc n + k]"
proof -
  have "[n..<n + Suc k] = n # [Suc n..<n + Suc k]"
    by (rule upt_conv_Cons) simp
  then show ?thesis by (simp del: upt_Suc)
qed

lemma reindex_ok:
  assumes "list_all (\<lambda>a. is_dict h a \<and> field h a ''_id'' \<noteq> None) sel"
  shows "reindex sel i (h @ ext, m, acc) =
     Inr (h @ ext @ renumbered h sel i,
          (\<lambda>j. if i \<le> j \<and> j < i + length sel then field h (sel ! (j - i)) ''_id'' else m j),
          acc @ [length (h @ ext) ..< length (h @ ext) + length sel])"
  using assms
proof (induction sel arbitrary: i ext m acc)
  case Nil
  have "m = (\<lambda>j. if i \<le> j \<and> j < i then field h ([] ! (j - i)) ''_id'' else m j)"
    by (auto simp: fun_eq_iff)
  then show ?case by simp
next
  case (Cons a sel)
  then obtain old where d: "is_dict h a" and old: "field h a ''_id'' = Some old"
    by auto
  from d have lt: "a < length h" by (rule is_dict_less)
  have g: "getitem (h @ ext) a ''_id'' = Inr old"
    using old lt by (simp add: getitem_Inr_iff)
  have cell: "(h @ ext) ! a = ODict (dict_of h a)"
    using d lt by (simp add: nth_append is_dict_nth)
  have st: "setitem ((h @ ext) @ [(h @ ext) ! a]) (length (h @ ext)) ''_id'' (PInt (int i))
      = h @ (ext @ [ODict ((dict_of h a)(''_id'' \<mapsto> PInt (int i)))])"
    unfolding cell by (simp add: setitem_def nth_append list_update_append)
  have sel: "list_all (\<lambda>a. is_dict h a \<and> field h a ''_id'' \<noteq> None) sel"
    using Cons.prems by simp
  have m: "(\<lambda>j. if Suc i \<le> j \<and> j < Suc i + length sel then field h (sel ! (j - Suc i)) ''_id''
                else (m(i \<mapsto> old)) j)
      = (\<lambda>j. if i \<le> j \<and> j < i + length (a # sel) then field h ((a # sel) ! (j - i)) ''_id'' else m j)"
  proof
    fix j
    show "(if Suc i \<le> j \<and> j < Suc i + length sel then field h (sel ! (j - Suc i)) ''_id''
                else (m(i \<mapsto> old)) j)
      = (if i \<le> j \<and> j < i + length (a # sel) then field h ((a # sel) ! (j - i)) ''_id'' else m j)"
    proof (cases "j = i")
      case True
      then show ?thesis by (simp add: old)
    next
      case False
      then show ?thesis by (auto simp: nth_Cons' Suc_diff_Suc)
    qed
  qed
  have acc: "(acc @ [length (h @ ext)]) @
       [length (h @ (ext @ [x])) ..< length (h @ (ext @ [x])) + length sel]
     = acc @ [length (h @ ext) ..< length (h @ ext) + length (a # sel)]" for x :: obj
    using upt_add_Suc[of "length h + length ext" "length sel"] by (simp del: upt_Suc)
  let ?new = "ODict ((dict_of h a)(''_id'' \<mapsto> PInt (int i)))"
  have "reindex (a # sel) i (h @ ext, m, acc)
      = reindex sel (Suc i) (h @ (ext @ [?new]), m(i \<mapsto> old), acc @ [length (h @ ext)])"
    using g st by (simp add: copy_def)
  also have "\<dots> = Inr (h @ (ext @ [?new]) @ renumbered h sel (Suc i),
          (\<lambda>j. if Suc i \<le> j \<and> j < Suc i + length sel then field h (sel ! (j - Suc i)) ''_id''
                else (m(i \<mapsto> old)) j),
          (acc @ [length (h @ ext)]) @
            [length (h @ (ext @ [?new])) ..< length (h @ (ext @ [?new])) + length sel])"
    by (rule Cons.IH[OF sel])
  also have "\<dots> = Inr (h @ ext @ renumbered h (a # sel) i,
          (\<lambda>j. if i \<le> j \<and> j < i + length (a # sel) then field h ((a # sel) ! (j - i)) ''_id'' else m j),
          acc @ [length (h @ ext) ..< length (h @ ext) + length (a # sel)])"
    unfolding m acc by simp
  finally show ?case .
qed

subsection \<open>Field values, class labels, grouping by image\<close>

lemma values_of_Nil [simp]: "values_of h k [] = []"
  by (simp add: values_of_def)

lemma values_of_Cons:
  "values_of h k (a # as) =
     (case field h a k of None \<Rightarrow> values_of h k as | Some v \<Rightarrow> v # values_of h k as)"
  by (simp add: values_of_def split: option.splits)

lemma set_values_of: "set (values_of h k as) = {v. \<exists>a\<in>set as. field h a k = Some v}"
  by (induction as) (auto simp: values_of_Cons split: option.splits)

lemma values_of_map: "values_of h k as = List.map_filter id (map (\<lambda>a. field h a k) as)"
  by (induction as) (simp_all add: values_of_Cons split: option.splits)

lemma values_of_cong:
  assumes "length as = length bs"
    and "\<And>j. j < length as \<Longrightarrow> field h1 (as ! j) k = field h2 (bs ! j) k"
  shows "values_of h1 k as = values_of h2 k bs"
proof -
  have "map (\<lambda>a. field h1 a k) as = map (\<lambda>a. field h2 a k) bs"
    using assms by (simp add: list_eq_iff_nth_eq)
  then show ?thesis by (simp add: values_of_map)
qed

lemma values_of_has:
  "list_all (\<lambda>a. field h a k \<noteq> None) as \<Longrightarrow> length (values_of h k as) = length as"
  by (induction as) (auto simp: values_of_Cons)

lemma field_values_ok:
  "list_all (has_hashable h k) as \<Longrightarrow> field_values h k as = Inr (values_of h k as)"
proof (induction as)
  case Nil
  then show ?case by simp
next
  case (Cons a as)
  then obtain v where v: "field h a k = Some v" "hashable v"
    by (auto simp: has_hashable_iff)
  then have "getitem h a k = Inr v" by (simp add: getitem_Inr_iff)
  with v Cons show ?case by (simp add: values_of_Cons)
qed

lemma fold_labels:
  "fold (\<lambda>i m. m(i \<mapsto> f i)) xs m0 = (\<lambda>c. if c \<in> set xs then Some (f c) else m0 c)"
proof (induction xs arbitrary: m0)
  case Nil
  then show ?case by simp
next
  case (Cons x xs)
  show ?case unfolding fold_simps Cons.IH by (auto simp: fun_eq_iff)
qed

lemma sortable_iff: "sortable cs \<longleftrightarrow> (\<forall>x\<in>set cs. \<forall>y\<in>set cs. x = y \<or> comparable x y)"
  by (simp add: sortable_def list_all_iff)

lemma sortable_subset: "sortable cs \<Longrightarrow> set cs' \<subseteq> set cs \<Longrightarrow> sortable cs'"
  unfolding sortable_iff by blast

lemma class_labels_ok:
  "sortable cs \<Longrightarrow>
     class_labels cs = Inr (\<lambda>c. if c \<in> set cs then Some (''Class '' @ py_str c) else None)"
  by (simp add: class_labels_def fold_labels cong: if_cong)

lemma ids_on_image_Nil [simp]: "ids_on_image h k [] = []"
  by (simp add: ids_on_image_def)

lemma ids_on_image_Cons:
  "ids_on_image h k (a # as) =
     (if field h a ''image_id'' = Some k
      then (case field h a ''_id'' of None \<Rightarrow> ids_on_image h k as
            | Some v \<Rightarrow> v # ids_on_image h k as)
      else ids_on_image h k as)"
  by (simp add: ids_on_image_def values_of_Cons split: option.splits)

lemma set_ids_on_image:
  "set (ids_on_image h k as) =
     {v. \<exists>a\<in>set as. field h a ''image_id'' = Some k \<and> field h a ''_id'' = Some v}"
  by (auto simp: ids_on_image_def set_values_of)

lemma group_by_image_ok:
  assumes "list_all (\<lambda>a. has_hashable h ''image_id'' a \<and> field h a ''_id'' \<noteq> None) as"
  shows "group_by_image h as m0 =
     Inr (\<lambda>k. if ids_on_image h k as = [] then m0 k
              else Some ((case m0 k of None \<Rightarrow> [] | Some l \<Rightarrow> l) @ ids_on_image h k as))"
  using assms
proof (induction as arbitrary: m0)
  case Nil
  then show ?case by simp
next
  case (Cons a as)
  then obtain k0 v where k0: "field h a ''image_id'' = Some k0" "hashable k0"
    and v: "field h a ''_id'' = Some v"
    by (auto simp: has_hashable_iff)
  have rest: "list_all (\<lambda>a. has_hashable h ''image_id'' a \<and> field h a ''_id'' \<noteq> None) as"
    using Cons.prems by simp
  have g: "getitem h a ''image_id'' = Inr k0" "getitem h a ''_id'' = Inr v"
    using k0 v by (simp_all add: getitem_Inr_iff)
  have "group_by_image h (a # as) m0 = group_by_image h as (append_to m0 k0 v)"
    using g k0 by simp
  also have "\<dots> = Inr (\<lambda>k. if ids_on_image h k as = [] then append_to m0 k0 v k
              else Some ((case append_to m0 k0 v k of None \<Rightarrow> [] | Some l \<Rightarrow> l)
                         @ ids_on_image h k as))"
    by (rule Cons.IH[OF rest])
  also have "(\<lambda>k. if ids_on_image h k as = [] then append_to m0 k0 v k
              else Some ((case append_to m0 k0 v k of None \<Rightarrow> [] | Some l \<Rightarrow> l)
                         @ ids_on_image h k as))
      = (\<lambda>k. if ids_on_image h k (a # as) = [] then m0 k
              else Some ((case m0 k of None \<Rightarrow> [] | Some l \<Rightarrow> l) @ ids_on_image h k (a # as)))"
    by (auto simp: fun_eq_iff ids_on_image_Cons k0 v append_to_def)
  finally show ?case .
qed

subsection \<open>The store after the renumbering loop\<close>

lemma field_renumbered:
  assumes "j < length sel" and "is_dict h (sel ! j)"
  shows "field (h @ renumbered h sel i) (length h + j) k =
     (if k = ''_id'' then Some (PInt (int (i + j))) else field h (sel ! j) k)"
proof -
  have "(h @ renumbered h sel i) ! (length h + j)
      = ODict ((dict_of h (sel ! j))(''_id'' \<mapsto> PInt (int (i + j))))"
    using assms by (simp add: nth_append nth_renumbered)
  then show ?thesis
    using assms by (simp add: field_def getitem_def field_dict_of[symmetric] split: option.splits)
qed

subsection \<open>What create_filtered_Data returns\<close>

lemma data_model_ann:
  assumes "data_model h d" and "a \<in> set (annotations d)"
  shows "has_hashable h ''_id'' a" "has_hashable h ''image_id'' a" "has_hashable h ''class'' a"
    "is_dict h a"
proof -
  show "has_hashable h ''_id'' a" "has_hashable h ''image_id'' a" "has_hashable h ''class'' a"
    using assms by (auto simp: data_model_def list_all_iff)
  then show "is_dict h a"
    by (auto simp: has_hashable_iff dest: field_Some_is_dict)
qed

lemma kept_subset: "set (kept h d K) \<subseteq> set (annotations d)"
  by (auto simp: kept_def)

lemma kept_nth_in: "j < length (kept h d K) \<Longrightarrow> kept h d K ! j \<in> set (annotations d)"
  using kept_subset nth_mem by blast

lemma length_fresh [simp]: "length (fresh h n) = n"
  by (simp add: fresh_def)

lemma nth_fresh [simp]: "j < n \<Longrightarrow> fresh h n ! j = length h + j"
  by (simp add: fresh_def)

lemma set_fresh: "set (fresh h n) = {length h ..< length h + n}"
  by (simp add: fresh_def)

lemma length_filtered_heap: "length (filtered_heap h d K) = length h + length (kept h d K)"
  by (simp add: filtered_heap_def)

lemma field_filtered_heap:
  assumes "data_model h d" and "j < length (kept h d K)"
  shows "field (filtered_heap h d K) (length h + j) k =
     (if k = ''_id'' then Some (PInt (int j)) else field h (kept h d K ! j) k)"
proof -
  have "is_dict h (kept h d K ! j)"
    using assms data_model_ann(4) kept_nth_in by blast
  from field_renumbered[OF assms(2) this, of 0 k] show ?thesis
    by (simp add: filtered_heap_def)
qed

lemma field_filtered_heap_old:
  "a < length h \<Longrightarrow> field (filtered_heap h d K) a k = field h a k"
  by (simp add: filtered_heap_def)

lemma has_hashable_fresh:
  assumes "data_model h d" and "k \<in> {''_id'', ''image_id'', ''class''}"
  shows "list_all (has_hashable (filtered_heap h d K) k) (fresh h (length (kept h d K)))"
proof -
  have "has_hashable (filtered_heap h d K) k (length h + j)" if j: "j < length (kept h d K)" for j
  proof -
    have "has_hashable h k (kept h d K ! j)"
      using assms data_model_ann(1-3) kept_nth_in[OF j] by blast
    then show ?thesis
      using field_filtered_heap[OF assms(1) j, of k] by (auto simp: has_hashable_iff)
  qed
  then show ?thesis
    by (auto simp: list_all_iff set_fresh) (metis add_diff_inverse_nat nat_add_left_cancel_less not_le)
qed

lemma values_of_fresh:
  assumes "data_model h d" and "k \<noteq> ''_id''"
  shows "values_of (filtered_heap h d K) k (fresh h (length (kept h d K)))
     = values_of h k (kept h d K)"
proof (rule values_of_cong)
  show "length (fresh h (length (kept h d K))) = length (kept h d K)" by simp
next
  fix j assume "j < length (fresh h (length (kept h d K)))"
  then have j: "j < length (kept h d K)" by simp
  then show "field (filtered_heap h d K) (fresh h (length (kept h d K)) ! j) k
     = field h (kept h d K ! j) k"
    using field_filtered_heap[OF assms(1) j, of k] assms(2) by simp
qed

lemma sortable_kept:
  assumes "data_model h d"
  shows "sortable (values_of h ''class'' (kept h d K))"
proof (rule sortable_subset)
  show "sortable (values_of h ''class'' (annotations d))"
    using assms by (simp add: data_model_def)
  show "set (values_of h ''class'' (kept h d K)) \<subseteq> set (values_of h ''class'' (annotations d))"
    using kept_subset[of h d K] by (auto simp: set_values_of)
qed

lemma create_filtered_Data_ok:
  assumes dm: "data_model h d"
  shows "create_filtered_Data h d K nm =
     Inr (filtered_heap h d K, filtered_data h d K nm, filtered_map h d K)"
proof -
  let ?sel = "kept h d K"
  let ?h1 = "filtered_heap h d K"
  let ?new = "fresh h (length ?sel)"
  have ids: "list_all (has_hashable h ''_id'') (annotations d)"
    using dm by (auto simp: list_all_iff dest: data_model_ann(1))
  have k: "keep_annotations h K (annotations d) = Inr ?sel"
    using keep_annotations_ok[OF ids] by (simp add: kept_def)
  have sel: "list_all (\<lambda>a. is_dict h a \<and> field h a ''_id'' \<noteq> None) ?sel"
  proof -
    have "is_dict h a \<and> field h a ''_id'' \<noteq> None" if "a \<in> set ?sel" for a
    proof -
      from that have a: "a \<in> set (annotations d)" using kept_subset by blast
      from data_model_ann(1)[OF dm a] data_model_ann(4)[OF dm a] show ?thesis
        by (auto simp: has_hashable_iff)
    qed
    then show ?thesis by (simp add: list_all_iff)
  qed
  have r: "reindex ?sel 0 (h, Map.empty, []) = Inr (?h1, filtered_map h d K, ?new)"
    using reindex_ok[OF sel, of 0 "[]" Map.empty "[]"]
    by (simp add: filtered_heap_def filtered_map_def fresh_def cong: if_cong)
  have c: "field_values ?h1 ''class'' ?new = Inr (values_of h ''class'' ?sel)"
    using field_values_ok[OF has_hashable_fresh[OF dm, of "''class''" K]]
    by (simp add: values_of_fresh[OF dm])
  have l: "class_labels (values_of h ''class'' ?sel) = Inr (filtered_classes h d K)"
    using class_labels_ok[OF sortable_kept[OF dm]] by (simp add: filtered_classes_def)
  have "list_all (\<lambda>a. has_hashable ?h1 ''image_id'' a \<and> field ?h1 a ''_id'' \<noteq> None) ?new"
    using has_hashable_fresh[OF dm, of "''image_id''" K] has_hashable_fresh[OF dm, of "''_id''" K]
    by (auto simp: list_all_iff has_hashable_iff)
  from group_by_image_ok[OF this, of Map.empty]
  have g: "group_by_image ?h1 ?new Map.empty = Inr (filtered_image_ids h d K)"
    by (simp add: filtered_image_ids_def cong: if_cong)
  show ?thesis
    by (simp add: create_filtered_Data_def k r c l g filtered_data_def Data_init_def)
qed

subsection \<open>The filtered dataset satisfies the invariants\<close>

lemma ids_on_image_fresh:
  assumes dm: "data_model h d"
  shows "ids_on_image (filtered_heap h d K) k (fresh h (length (kept h d K)))
     = map (\<lambda>j. PInt (int j))
         (filter (\<lambda>j. field h (kept h d K ! j) ''image_id'' = Some k) [0..<length (kept h d K)])"
proof -
  let ?sel = "kept h d K" and ?h1 = "filtered_heap h d K"
  let ?n = "length ?sel"
  have fr: "fresh h ?n = map (\<lambda>j. length h + j) [0..<?n]"
    unfolding fresh_def by (rule nth_equalityI) simp_all
  have p: "filter ((\<lambda>a. field ?h1 a ''image_id'' = Some k) \<circ> (\<lambda>j. length h + j)) [0..<?n]
      = filter (\<lambda>j. field h (?sel ! j) ''image_id'' = Some k) [0..<?n]"
    by (rule filter_cong) (simp_all add: field_filtered_heap[OF dm])
  have v: "values_of ?h1 ''_id'' (map (\<lambda>j. length h + j) js) = map (\<lambda>j. PInt (int j)) js"
    if "set js \<subseteq> {0..<?n}" for js
    using that
  proof (induction js)
    case Nil
    then show ?case by simp
  next
    case (Cons j js)
    then have "j < ?n" by simp
    from field_filtered_heap[OF dm this, of "''_id''"] Cons show ?case
      by (simp add: values_of_Cons)
  qed
  show ?thesis
    unfolding ids_on_image_def fr filter_map p
    by (rule v) auto
qed

lemma dom_image_entries: "dom (image_entries g) = dom g"
  by (auto simp: image_entries_def split: option.splits)

lemma image_entries_Some:
  "image_entries g k = Some img \<Longrightarrow> g k = Some (anns img)"
  by (auto simp: image_entries_def split: option.splits)

lemma filtered_invariants:
  assumes dm: "data_model h d"
  shows "invariants (filtered_heap h d K) (filtered_data h d K nm)"
proof -
  let ?sel = "kept h d K" and ?h1 = "filtered_heap h d K" and ?d1 = "filtered_data h d K nm"
  let ?n = "length ?sel"
  let ?new = "fresh h ?n"
  have ann: "annotations ?d1 = ?new" by (simp add: filtered_data_def)
  have hh: "list_all (has_hashable ?h1 k) ?new" if "k \<in> {''_id'', ''image_id'', ''class''}" for k
    using has_hashable_fresh[OF dm that] .
  have "sortable (values_of ?h1 ''class'' ?new)"
    using sortable_kept[OF dm] by (simp add: values_of_fresh[OF dm])
  with hh have 0: "data_model ?h1 ?d1"
    by (simp add: data_model_def ann list_all_iff)
  have 1: "ids_dense ?h1 ?d1"
    unfolding ids_dense_def ann
    by (rule nth_equalityI) (simp_all add: field_filtered_heap[OF dm])
  have nonempty: "ids_on_image ?h1 k ?new \<noteq> [] \<longleftrightarrow> k \<in> set (values_of ?h1 ''image_id'' ?new)"
    for k
  proof -
    have "ids_on_image ?h1 k ?new \<noteq> [] \<longleftrightarrow> set (ids_on_image ?h1 k ?new) \<noteq> {}"
      by simp
    also have "\<dots> \<longleftrightarrow> (\<exists>a\<in>set ?new. field ?h1 a ''image_id'' = Some k)"
    proof -
      have "\<exists>v. field ?h1 a ''_id'' = Some v" if "a \<in> set ?new" for a
        using hh[of "''_id''"] that by (auto simp: list_all_iff has_hashable_iff)
      then show ?thesis
        unfolding set_ids_on_image by blast
    qed
    finally show ?thesis by (simp add: set_values_of)
  qed
  have 2: "images_consistent ?h1 ?d1"
  proof -
    have "dom (filtered_image_ids h d K) = {k. ids_on_image ?h1 k ?new \<noteq> []}"
      unfolding filtered_image_ids_def dom_def by simp
    then have "dom (images ?d1) = set (values_of ?h1 ''image_id'' ?new)"
      unfolding nonempty by (simp add: filtered_data_def dom_image_entries)
    moreover have "set (anns img) = set (ids_on_image ?h1 k ?new)"
      if "images ?d1 k = Some img" for k img
    proof -
      from that have "filtered_image_ids h d K k = Some (anns img)"
        by (simp add: filtered_data_def image_entries_Some)
      then show ?thesis
        by (simp add: filtered_image_ids_def split: if_splits)
    qed
    ultimately show ?thesis
      by (simp add: images_consistent_def ann)
  qed
  have "dom (filtered_classes h d K) = set (values_of h ''class'' ?sel)"
    unfolding filtered_classes_def dom_def by simp
  then have 3: "classes_consistent ?h1 ?d1"
    by (simp add: classes_consistent_def ann values_of_fresh[OF dm] filtered_data_def)
  from 0 1 2 3 show ?thesis by (simp add: invariants_def)
qed

lemma invariants_data_model: "invariants h d \<Longrightarrow> data_model h d"
  by (simp add: invariants_def)

subsection \<open>The example store\<close>

lemma field_store0:
  "field store0 3 ''_id'' = Some (PInt 0)"
  "field store0 3 ''image_id'' = Some (PStr ''a'')"
  "field store0 3 ''class'' = Some (PInt 5)"
  "field store0 4 ''_id'' = Some (PInt 0)"
  "field store0 4 ''image_id'' = Some (PStr ''a'')"
  "field store0 4 ''class'' = Some (PInt 5)"
  "field store0 4 ''info'' = Some (PRef 2)"
  "field store0 6 ''_id'' = Some (PInt 1)"
  "field store0 6 ''image_id'' = Some (PStr ''b'')"
  "field store0 6 ''class'' = Some (PInt 7)"
  "field store0 6 ''info'' = Some (PRef 5)"
  "field store0 2 ''matched_with'' = Some (PInt 0)"
  "field store0 5 ''matched_with'' = None"
  "field store0 7 ''_id'' = Some (PInt 1)"
  "field store0 7 ''info'' = None"
  by (simp_all add: field_def getitem_def store0_def)

lemma data_model_gts0: "data_model store0 gts0"
  by (simp add: data_model_def gts0_def has_hashable_def field_store0 values_of_Cons
      sortable_def)

lemma data_model_preds0: "data_model store0 preds0"
  by (simp add: data_model_def preds0_def has_hashable_def field_store0 values_of_Cons
      sortable_def comparable_def)

lemma invariants_gts0: "invariants store0 gts0"
proof -
  have "ids_dense store0 gts0"
    by (simp add: ids_dense_def gts0_def field_store0)
  moreover have "images_consistent store0 gts0"
    by (simp add: images_consistent_def gts0_def values_of_Cons field_store0 ids_on_image_Cons)
  moreover have "classes_consistent store0 gts0"
    by (simp add: classes_consistent_def gts0_def values_of_Cons field_store0)
  ultimately show ?thesis
    using data_model_gts0 by (simp add: invariants_def)
qed

lemma invariants_preds0: "invariants store0 preds0"
proof -
  have "ids_dense store0 preds0"
    by (simp add: ids_dense_def preds0_def field_store0 upt_rec)
  moreover have "images_consistent store0 preds0"
    by (auto simp: images_consistent_def preds0_def values_of_Cons field_store0 ids_on_image_Cons
        split: if_splits)
  moreover have "classes_consistent store0 preds0"
    by (auto simp: classes_consistent_def preds0_def values_of_Cons field_store0)
  ultimately show ?thesis
    using data_model_preds0 by (simp add: invariants_def)
qed

subsection \<open>The kept annotations and the id map\<close>

lemma kept_ids:
  assumes "ids_dense h d"
  shows "map (\<lambda>a. field h a ''_id'') (kept h d K)
     = map (\<lambda>i. Some (PInt (int i)))
         (filter (\<lambda>i. PInt (int i) \<in> K) [0..<length (annotations d)])"
proof -
  let ?P = "\<lambda>v. case v of None \<Rightarrow> False | Some x \<Rightarrow> x \<in> K"
  have "map (\<lambda>a. field h a ''_id'') (kept h d K)
      = filter ?P (map (\<lambda>a. field h a ''_id'') (annotations d))"
    by (simp add: kept_def filter_map comp_def id_in_def[abs_def])
  also have "\<dots> = filter ?P (map (\<lambda>i. Some (PInt (int i))) [0..<length (annotations d)])"
    using assms by (simp add: ids_dense_def)
  also have "\<dots> = map (\<lambda>i. Some (PInt (int i)))
         (filter (\<lambda>i. PInt (int i) \<in> K) [0..<length (annotations d)])"
    by (simp add: filter_map comp_def)
  finally show ?thesis .
qed

lemma filtered_map_increasing:
  assumes "ids_dense h d" and "i < j" and "j < length (kept h d K)"
  shows "\<exists>x y. filtered_map h d K i = Some (PInt x) \<and> filtered_map h d K j = Some (PInt y)
            \<and> x < y"
proof -
  let ?js = "filter (\<lambda>i. PInt (int i) \<in> K) [0..<length (annotations d)]"
  from kept_ids[OF assms(1), of K] have eq:
    "map (\<lambda>a. field h a ''_id'') (kept h d K) = map (\<lambda>i. Some (PInt (int i))) ?js" .
  then have len: "length (kept h d K) = length ?js"
    by (metis length_map)
  have nth: "field h (kept h d K ! k) ''_id'' = Some (PInt (int (?js ! k)))"
    if "k < length (kept h d K)" for k
  proof -
    have "map (\<lambda>a. field h a ''_id'') (kept h d K) ! k = map (\<lambda>i. Some (PInt (int i))) ?js ! k"
      by (simp only: eq)
    then show ?thesis using that len by simp
  qed
  have "sorted_wrt (<) ?js"
    by (rule sorted_wrt_filter) simp
  then have "?js ! i < ?js ! j"
    using assms(2,3) len by (simp add: sorted_wrt_nth_less)
  then show ?thesis
    using assms(2,3) nth[of i] nth[of j] by (simp add: filtered_map_def)
qed

lemma dom_filtered_map:
  assumes "data_model h d"
  shows "dom (filtered_map h d K) = {0..<length (kept h d K)}"
proof -
  have "field h (kept h d K ! j) ''_id'' \<noteq> None" if "j < length (kept h d K)" for j
    using data_model_ann(1)[OF assms kept_nth_in[OF that]] by (auto simp: has_hashable_iff)
  then show ?thesis
    by (auto simp: filtered_map_def dom_def split: if_splits)
qed

lemma ran_filtered_map:
  assumes "data_model h d"
  shows "ran (filtered_map h d K)
     = {v. v \<in> K \<and> (\<exists>a\<in>set (annotations d). field h a ''_id'' = Some v)}"
proof -
  have "ran (filtered_map h d K)
      = {v. \<exists>j<length (kept h d K). field h (kept h d K ! j) ''_id'' = Some v}"
    by (auto simp: ran_def filtered_map_def split: if_splits)
  also have "\<dots> = {v. \<exists>a\<in>set (kept h d K). field h a ''_id'' = Some v}"
  proof (intro set_eqI iffI)
    fix v assume "v \<in> {v. \<exists>j<length (kept h d K). field h (kept h d K ! j) ''_id'' = Some v}"
    then obtain j where "j < length (kept h d K)" "field h (kept h d K ! j) ''_id'' = Some v"
      by auto
    then show "v \<in> {v. \<exists>a\<in>set (kept h d K). field h a ''_id'' = Some v}"
      using nth_mem[of j "kept h d K"] by auto
  next
    fix v assume "v \<in> {v. \<exists>a\<in>set (kept h d K). field h a ''_id'' = Some v}"
    then obtain a where "a \<in> set (kept h d K)" "field h a ''_id'' = Some v"
      by auto
    then show "v \<in> {v. \<exists>j<length (kept h d K). field h (kept h d K ! j) ''_id'' = Some v}"
      by (auto simp: in_set_conv_nth)
  qed
  also have "\<dots> = {v. v \<in> K \<and> (\<exists>a\<in>set (annotations d). field h a ''_id'' = Some v)}"
    by (auto simp: kept_def id_in_def split: option.splits)
  finally show ?thesis .
qed

lemma dict_of_filtered_heap:
  assumes "data_model h d" and "j < length (kept h d K)"
  shows "is_dict (filtered_heap h d K) (length h + j)"
    and "dict_of (filtered_heap h d K) (length h + j)
       = (dict_of h (kept h d K ! j))(''_id'' \<mapsto> PInt (int j))"
proof -
  have "filtered_heap h d K ! (length h + j)
      = ODict ((dict_of h (kept h d K ! j))(''_id'' \<mapsto> PInt (int j)))"
    using assms(2) by (simp add: filtered_heap_def nth_append nth_renumbered)
  then show "is_dict (filtered_heap h d K) (length h + j)"
    and "dict_of (filtered_heap h d K) (length h + j)
       = (dict_of h (kept h d K ! j))(''_id'' \<mapsto> PInt (int j))"
    using assms(2) by (simp_all add: is_dict_def dict_of_def length_filtered_heap)
qed

subsection \<open>Ids that are not in the dataset\<close>

lemma id_in_Int:
  "a \<in> set as \<Longrightarrow> id_in h (K \<inter> set (values_of h ''_id'' as)) a = id_in h K a"
  by (auto simp: id_in_def set_values_of split: option.splits)

lemma create_filtered_Data_cong:
  assumes "\<And>a. a \<in> set (annotations d) \<Longrightarrow> id_in h K a = id_in h K' a"
  shows "create_filtered_Data h d K nm = create_filtered_Data h d K' nm"
proof -
  have "keep_annotations h K (annotations d) = keep_annotations h K' (annotations d)"
    using assms by (rule keep_annotations_cong)
  then show ?thesis
    by (simp only: create_filtered_Data_def)
qed

lemma kept_empty [simp]: "kept h d {} = []"
  by (simp add: kept_def id_in_def split: option.splits)

lemma create_filtered_Data_empty:
  assumes "data_model h d"
  shows "create_filtered_Data h d {} nm =
     Inr (h, \<lparr>name = nm, annotations = [], classes = Map.empty, images = Map.empty\<rparr>, Map.empty)"
  unfolding create_filtered_Data_ok[OF assms]
  by (simp add: filtered_heap_def filtered_data_def filtered_map_def filtered_classes_def
      filtered_image_ids_def fresh_def image_entries_def)

subsection \<open>The frame of the filter\<close>

lemma take_filtered_heap: "take (length h) (filtered_heap h d K) = h"
  by (simp add: filtered_heap_def)

lemma kept_store0_preds0: "kept store0 preds0 {PInt 0} = [4]"
  by (simp add: kept_def preds0_def id_in_def field_store0)

lemma length_store0: "length store0 = 8"
  by (simp add: store0_def)

lemma shared_info_input: "2 \<in> state_of store0 preds0"
proof -
  have "4 \<in> reachable store0 (set (annotations preds0))"
    by (rule reachable.root) (simp add: preds0_def)
  moreover have "(4::nat) < length store0"
    by (simp add: length_store0)
  moreover have "2 \<in> obj_refs (store0 ! 4)"
    by (simp add: store0_def obj_refs_def ran_def) (rule exI[of _ "''info''"], simp)
  ultimately show ?thesis
    unfolding state_of_def by (rule reachable.step)
qed

lemma shared_info_output:
  "2 \<in> state_of (filtered_heap store0 preds0 {PInt 0})
          (filtered_data store0 preds0 {PInt 0} ''filtered_data'')"
proof -
  let ?h1 = "filtered_heap store0 preds0 {PInt 0}"
  let ?d1 = "filtered_data store0 preds0 {PInt 0} ''filtered_data''"
  have ann: "annotations ?d1 = [8]"
    by (simp add: filtered_data_def kept_store0_preds0 fresh_def length_store0)
  have cell: "?h1 ! 8 = ODict ((dict_of store0 4)(''_id'' \<mapsto> PInt 0))"
    by (simp add: filtered_heap_def kept_store0_preds0 nth_append length_store0)
  have "8 \<in> reachable ?h1 (set (annotations ?d1))"
    by (rule reachable.root) (simp add: ann)
  moreover have "(8::nat) < length ?h1"
    by (simp add: length_filtered_heap kept_store0_preds0 length_store0)
  moreover have "2 \<in> obj_refs (?h1 ! 8)"
    unfolding cell
    by (simp add: obj_refs_def ran_def dict_of_def store0_def) (rule exI[of _ "''info''"], simp)
  ultimately show ?thesis
    unfolding state_of_def by (rule reachable.step)
qed

subsection \<open>Filtering to all ids\<close>

lemma ids_dense_nth:
  "ids_dense h d \<Longrightarrow> j < length (annotations d)
     \<Longrightarrow> field h (annotations d ! j) ''_id'' = Some (PInt (int j))"
proof -
  assume d: "ids_dense h d" and j: "j < length (annotations d)"
  have "map (\<lambda>a. field h a ''_id'') (annotations d) ! j
      = map (\<lambda>i. Some (PInt (int i))) [0..<length (annotations d)] ! j"
    using d by (simp only: ids_dense_def)
  then show ?thesis using j by simp
qed

lemma kept_all:
  assumes "ids_dense h d"
  shows "kept h d (all_ids d) = annotations d"
proof -
  have "id_in h (all_ids d) a" if "a \<in> set (annotations d)" for a
  proof -
    from that obtain j where j: "j < length (annotations d)" "a = annotations d ! j"
      by (auto simp: in_set_conv_nth)
    with ids_dense_nth[OF assms j(1)] show ?thesis
      by (simp add: id_in_def all_ids_def)
  qed
  then show ?thesis by (simp add: kept_def)
qed

lemma strict_sorted_unique:
  assumes "sorted_wrt (<) (js :: nat list)" and "sorted_wrt (<) js'"
    and "set (map (\<lambda>j. PInt (int j)) js) = set (map (\<lambda>j. PInt (int j)) js')"
  shows "js = js'"
proof -
  have "inj (\<lambda>j. PInt (int j))" by (simp add: inj_def)
  with assms(3) have "set js = set js'"
    by (simp add: inj_image_eq_iff)
  with assms(1,2) show ?thesis
    by (simp add: strict_sorted_iff sorted_distinct_set_unique)
qed

lemma ascending_unique:
  "ascending l \<Longrightarrow> ascending l' \<Longrightarrow> set l = set l' \<Longrightarrow> l = l'"
  unfolding ascending_def using strict_sorted_unique by blast

lemma ascending_filter_upt: "ascending (map (\<lambda>j. PInt (int j)) (filter P [0..<n]))"
  unfolding ascending_def
  by (rule exI[of _ "filter P [0..<n]"]) (simp add: sorted_wrt_filter)

lemma full_filter:
  fixes h :: heap and d :: Data and nm :: string
  assumes inv: "invariants h d"
  defines "h1 \<equiv> filtered_heap h d (all_ids d)"
    and "d1 \<equiv> filtered_data h d (all_ids d) nm"
  shows "map (\<lambda>a. h1 ! a) (annotations d1) = map (\<lambda>a. h ! a) (annotations d)"
    and "filtered_map h d (all_ids d)
       = (\<lambda>j. if j < length (annotations d) then Some (PInt (int j)) else None)"
    and "dom (classes d1) = dom (classes d)"
    and "dom (images d1) = dom (images d)"
    and "images d k = Some img \<Longrightarrow> images d1 k = Some img' \<Longrightarrow> set (anns img') = set (anns img)"
    and "synthesized d \<Longrightarrow> classes d1 = classes d"
    and "synthesized d \<Longrightarrow> images d1 = images d"
proof -
  have dm: "data_model h d" and dense: "ids_dense h d"
    and ic: "images_consistent h d" and cc: "classes_consistent h d"
    using inv by (simp_all add: invariants_def)
  let ?as = "annotations d"
  let ?n = "length ?as"
  have k: "kept h d (all_ids d) = ?as" by (rule kept_all[OF dense])
  have ann1: "annotations d1 = fresh h ?n"
    by (simp add: d1_def filtered_data_def k)
  have inv1: "invariants h1 d1"
    unfolding h1_def d1_def by (rule filtered_invariants[OF dm])
  have cell: "h1 ! (length h + j) = h ! (?as ! j)" if j: "j < ?n" for j
  proof -
    have a: "?as ! j \<in> set ?as" using j by simp
    have dj: "is_dict h (?as ! j)" by (rule data_model_ann(4)[OF dm a])
    have "dict_of h (?as ! j) ''_id'' = Some (PInt (int j))"
      using ids_dense_nth[OF dense j] by (simp add: field_dict_of[OF dj])
    then have "(dict_of h (?as ! j))(''_id'' \<mapsto> PInt (int j)) = dict_of h (?as ! j)"
      by (rule map_upd_triv)
    then show ?thesis
      using j by (simp add: h1_def filtered_heap_def k nth_append nth_renumbered is_dict_nth[OF dj])
  qed
  show "map (\<lambda>a. h1 ! a) (annotations d1) = map (\<lambda>a. h ! a) ?as"
    unfolding ann1 by (rule nth_equalityI) (simp_all add: cell)
  show "filtered_map h d (all_ids d) = (\<lambda>j. if j < ?n then Some (PInt (int j)) else None)"
    by (auto simp: filtered_map_def k fun_eq_iff ids_dense_nth[OF dense])
  have "dom (classes d1) = set (values_of h ''class'' ?as)"
    by (simp add: d1_def filtered_data_def filtered_classes_def k dom_def)
  then show dc: "dom (classes d1) = dom (classes d)"
    using cc by (simp add: classes_consistent_def)
  have "dom (images d1) = set (values_of h1 ''image_id'' (fresh h ?n))"
    using inv1 by (simp add: invariants_def images_consistent_def ann1)
  also have "\<dots> = set (values_of h ''image_id'' ?as)"
    using values_of_fresh[OF dm, of "''image_id''" "all_ids d"] by (simp add: h1_def k)
  finally show di: "dom (images d1) = dom (images d)"
    using ic by (simp add: images_consistent_def)
  have anns1: "anns img' = map (\<lambda>j. PInt (int j))
         (filter (\<lambda>j. field h (?as ! j) ''image_id'' = Some k) [0..<?n])"
    if "images d1 k = Some img'" for k img'
  proof -
    from that have "filtered_image_ids h d (all_ids d) k = Some (anns img')"
      by (simp add: d1_def filtered_data_def image_entries_Some)
    then have "anns img' = ids_on_image h1 k (fresh h ?n)"
      by (simp add: filtered_image_ids_def h1_def k split: if_splits)
    then show ?thesis
      using ids_on_image_fresh[OF dm, of "all_ids d" k] by (simp add: h1_def k)
  qed
  have anns0: "set (anns img) = set (map (\<lambda>j. PInt (int j))
         (filter (\<lambda>j. field h (?as ! j) ''image_id'' = Some k) [0..<?n]))"
    if "images d k = Some img" for k img
  proof -
    from that ic have "set (anns img) = set (ids_on_image h k ?as)"
      by (simp add: images_consistent_def)
    also have "\<dots> = {v. \<exists>j<?n. field h (?as ! j) ''image_id'' = Some k
                         \<and> field h (?as ! j) ''_id'' = Some v}"
      unfolding set_ids_on_image
    proof (intro set_eqI iffI)
      fix v assume "v \<in> {v. \<exists>a\<in>set ?as. field h a ''image_id'' = Some k \<and> field h a ''_id'' = Some v}"
      then obtain a where "a \<in> set ?as" "field h a ''image_id'' = Some k" "field h a ''_id'' = Some v"
        by auto
      then show "v \<in> {v. \<exists>j<?n. field h (?as ! j) ''image_id'' = Some k
                         \<and> field h (?as ! j) ''_id'' = Some v}"
        by (auto simp: in_set_conv_nth)
    next
      fix v assume "v \<in> {v. \<exists>j<?n. field h (?as ! j) ''image_id'' = Some k
                         \<and> field h (?as ! j) ''_id'' = Some v}"
      then obtain j where "j < ?n" "field h (?as ! j) ''image_id'' = Some k"
        "field h (?as ! j) ''_id'' = Some v" by auto
      then show "v \<in> {v. \<exists>a\<in>set ?as. field h a ''image_id'' = Some k \<and> field h a ''_id'' = Some v}"
        using nth_mem[of j ?as] by auto
    qed
    also have "\<dots> = set (map (\<lambda>j. PInt (int j))
         (filter (\<lambda>j. field h (?as ! j) ''image_id'' = Some k) [0..<?n]))"
      by (auto simp: ids_dense_nth[OF dense])
    finally show ?thesis .
  qed
  show "set (anns img') = set (anns img)" if "images d k = Some img" "images d1 k = Some img'"
    using anns0[OF that(1)] anns1[OF that(2)] by simp
  show "classes d1 = classes d" if syn: "synthesized d"
  proof
    fix c
    show "classes d1 c = classes d c"
    proof (cases "classes d c")
      case None
      then have "c \<notin> dom (classes d1)" using dc by (simp add: domIff)
      with None show ?thesis by (simp add: domIff)
    next
      case (Some s)
      then have "c \<in> dom (classes d1)" using dc by (simp add: domIff)
      then have "classes d1 c = Some (''Class '' @ py_str c)"
        by (auto simp: d1_def filtered_data_def filtered_classes_def split: if_splits)
      moreover from syn Some have "s = ''Class '' @ py_str c"
        unfolding synthesized_def by blast
      ultimately show ?thesis using Some by simp
    qed
  qed
  show "images d1 = images d" if syn: "synthesized d"
  proof
    fix k
    show "images d1 k = images d k"
    proof (cases "images d k")
      case None
      then have "k \<notin> dom (images d1)" using di by (simp add: domIff)
      with None show ?thesis by (simp add: domIff)
    next
      case (Some img)
      then have "k \<in> dom (images d1)" using di by (simp add: domIff)
      then obtain img' where img': "images d1 k = Some img'" by auto
      from syn Some have nm: "img_name img = Some (''Image '' @ py_str k)"
        and asc: "ascending (anns img)"
        unfolding synthesized_def by blast+
      from img' have nm': "img_name img' = Some (''Image '' @ py_str k)"
        by (auto simp: d1_def filtered_data_def image_entries_def split: option.splits)
      have asc': "ascending (anns img')"
        unfolding anns1[OF img'] by (rule ascending_filter_upt)
      have "anns img' = anns img"
        by (rule ascending_unique[OF asc' asc]) (simp add: anns0[OF Some] anns1[OF img'])
      with nm nm' have "img' = img" by (simp add: image.equality)
      with img' Some show ?thesis by simp
    qed
  qed
qed

lemma str_int_small:
  "str_int 5 = ''5''" "str_int 7 = ''7''"
  by (simp_all add: str_int_def digit_def)

lemma synthesized_preds0: "synthesized preds0"
proof -
  have "ascending [PInt 0]"
    unfolding ascending_def by (rule exI[of _ "[0]"]) simp
  moreover have "ascending [PInt 1]"
    unfolding ascending_def by (rule exI[of _ "[1]"]) simp
  ultimately show ?thesis
    by (auto simp: synthesized_def preds0_def str_int_small split: if_splits)
qed

lemma invariants_gts_named: "invariants store0 gts_named"
proof -
  have "data_model store0 gts_named"
    by (simp add: data_model_def gts_named_def has_hashable_def field_store0 values_of_Cons
        sortable_def)
  moreover have "ids_dense store0 gts_named"
    by (simp add: ids_dense_def gts_named_def field_store0)
  moreover have "images_consistent store0 gts_named"
    by (simp add: images_consistent_def gts_named_def values_of_Cons field_store0 ids_on_image_Cons)
  moreover have "classes_consistent store0 gts_named"
    by (simp add: classes_consistent_def gts_named_def values_of_Cons field_store0)
  ultimately show ?thesis
    by (simp add: invariants_def)
qed

subsection \<open>The comprehensions of the enlarger\<close>

lemma comprehension_Inr_iff:
  "comprehension f as = Inr S \<longleftrightarrow>
     (\<forall>a\<in>set as. \<exists>r. f a = Inr r) \<and> S = {v. \<exists>a\<in>set as. f a = Inr (Some v)}"
proof (induction as arbitrary: S)
  case Nil
  then show ?case by auto
next
  case (Cons a as)
  show ?case
  proof (cases "f a")
    case (Inl e)
    then show ?thesis by auto
  next
    case (Inr r)
    show ?thesis
    proof (cases "comprehension f as")
      case (Inl e)
      with Cons.IH have "\<not> (\<forall>a\<in>set as. \<exists>r. f a = Inr r)" by auto
      with Inl Inr show ?thesis by auto
    next
      case r2: (Inr S')
      with Cons.IH[of S'] have all: "\<forall>a\<in>set as. \<exists>r. f a = Inr r"
        and S': "S' = {v. \<exists>a\<in>set as. f a = Inr (Some v)}" by auto
      show ?thesis
        using Inr r2 all S' by (cases r) auto
    qed
  qed
qed

lemma has_info_cases:
  assumes "has_info h a"
  obtains r where "field h a ''info'' = Some (PRef r)" "is_dict h r"
    "info_of h a = Some (dict_of h r)"
  using assms
  by (auto simp: has_info_def info_of_def split: option.splits pyval.splits if_splits)

lemma gt_link_ok:
  assumes "has_info h a" and "has_hashable h ''_id'' a"
  shows "gt_link h Kp a =
     (case matched_with h a of
        None \<Rightarrow> Inr None
      | Some g \<Rightarrow> if id_in h Kp a then (if hashable g then Inr (Some g) else Inl TypeError)
                  else Inr None)"
proof -
  from assms(1) obtain r where r: "field h a ''info'' = Some (PRef r)" "is_dict h r"
    "info_of h a = Some (dict_of h r)" by (rule has_info_cases)
  from assms(2) obtain i where i: "field h a ''_id'' = Some i" "hashable i"
    by (auto simp: has_hashable_iff)
  have g1: "getitem h a ''info'' = Inr (PRef r)" "getitem h a ''_id'' = Inr i"
    using r i by (simp_all add: getitem_Inr_iff)
  have c: "py_contains h (PRef r) ''matched_with'' = Inr (dict_of h r ''matched_with'' \<noteq> None)"
    using r(2) by (simp add: py_contains_def is_dict_less is_dict_nth)
  have m: "matched_with h a = dict_of h r ''matched_with''"
    by (simp add: matched_with_def r)
  have v: "getitem_val h (PRef r) ''matched_with'' = Inr g" if "dict_of h r ''matched_with'' = Some g" for g
    using that r(2) by (simp add: getitem_val_def getitem_Inr_iff field_dict_of)
  show ?thesis
  proof (cases "dict_of h r ''matched_with''")
    case None
    then show ?thesis by (simp add: gt_link_def g1 c m)
  next
    case (Some g)
    then show ?thesis
      using v[OF Some] i by (simp add: gt_link_def g1 c m id_in_def)
  qed
qed

lemma pred_link_ok:
  assumes "has_info h a" and "has_hashable h ''_id'' a"
  shows "pred_link h F a =
     (if hashable (get_matched h a)
      then (if get_matched h a \<in> F then Inr (field h a ''_id'') else Inr None)
      else Inl TypeError)"
proof -
  from assms(1) obtain r where r: "field h a ''info'' = Some (PRef r)" "is_dict h r"
    "info_of h a = Some (dict_of h r)" by (rule has_info_cases)
  from assms(2) obtain i where i: "field h a ''_id'' = Some i" "hashable i"
    by (auto simp: has_hashable_iff)
  have g1: "getitem h a ''info'' = Inr (PRef r)" "getitem h a ''_id'' = Inr i"
    using r i by (simp_all add: getitem_Inr_iff)
  have d: "dict_get h (PRef r) ''matched_with'' = Inr (get_matched h a)"
    using r by (simp add: dict_get_def is_dict_less is_dict_nth get_matched_def matched_with_def)
  show ?thesis
    using i by (simp add: pred_link_def g1 d py_in_def)
qed

lemma assoc_gts_ok:
  assumes dm: "data_model h preds" and lk: "links_ok h preds"
  shows "comprehension (gt_link h Kp) (annotations preds) = Inr (assoc_gts_set h preds Kp)"
proof -
  have link: "gt_link h Kp a =
     (case matched_with h a of
        None \<Rightarrow> Inr None
      | Some g \<Rightarrow> if id_in h Kp a then Inr (Some g) else Inr None)"
    if a: "a \<in> set (annotations preds)" for a
  proof -
    from lk a have hi: "has_info h a" and hg: "hashable (get_matched h a)"
      by (simp_all add: links_ok_def)
    show ?thesis
    proof (cases "matched_with h a")
      case None
      then show ?thesis
        using gt_link_ok[OF hi data_model_ann(1)[OF dm a], of Kp] by simp
    next
      case (Some g)
      with hg have "hashable g" by (simp add: get_matched_def)
      with Some show ?thesis
        using gt_link_ok[OF hi data_model_ann(1)[OF dm a], of Kp] by simp
    qed
  qed
  have "\<forall>a\<in>set (annotations preds). \<exists>r. gt_link h Kp a = Inr r"
    by (simp add: link split: option.splits)
  moreover have "assoc_gts_set h preds Kp
      = {v. \<exists>a\<in>set (annotations preds). gt_link h Kp a = Inr (Some v)}"
    by (auto simp: assoc_gts_set_def link split: option.splits if_splits)
  ultimately show ?thesis
    by (simp add: comprehension_Inr_iff)
qed

lemma assoc_preds_ok:
  assumes dm: "data_model h preds" and lk: "links_ok h preds"
  shows "comprehension (pred_link h F) (annotations preds) = Inr (assoc_preds_set h preds F)"
proof -
  have link: "pred_link h F a = (if get_matched h a \<in> F then Inr (field h a ''_id'') else Inr None)"
    if a: "a \<in> set (annotations preds)" for a
  proof -
    from lk a have hi: "has_info h a" and hg: "hashable (get_matched h a)"
      by (simp_all add: links_ok_def)
    show ?thesis
      using pred_link_ok[OF hi data_model_ann(1)[OF dm a], of F] hg by simp
  qed
  have "\<forall>a\<in>set (annotations preds). \<exists>r. pred_link h F a = Inr r"
    by (simp add: link)
  moreover have "assoc_preds_set h preds F
      = {v. \<exists>a\<in>set (annotations preds). pred_link h F a = Inr (Some v)}"
    by (auto simp: assoc_preds_set_def link split: if_splits)
  ultimately show ?thesis
    by (simp add: comprehension_Inr_iff)
qed

lemma links_ok_from_run:
  assumes dm: "data_model h preds"
    and hi: "\<forall>a\<in>set (annotations preds). has_info h a"
    and run: "comprehension (pred_link h F) (annotations preds) = Inr S"
  shows "links_ok h preds"
proof -
  have "hashable (get_matched h a)" if a: "a \<in> set (annotations preds)" for a
  proof -
    from run a obtain r where "pred_link h F a = Inr r"
      by (auto simp: comprehension_Inr_iff)
    with pred_link_ok[OF hi[rule_format, OF a] data_model_ann(1)[OF dm a], of F]
    show ?thesis by (auto split: if_splits)
  qed
  with hi show ?thesis by (simp add: links_ok_def)
qed

subsection \<open>A larger store\<close>

lemma data_model_less: "data_model h d \<Longrightarrow> a \<in> set (annotations d) \<Longrightarrow> a < length h"
  using data_model_ann(4) is_dict_less by blast

lemma id_in_append [simp]: "a < length h \<Longrightarrow> id_in (h @ ext) K a = id_in h K a"
  by (simp add: id_in_def)

lemma has_hashable_append [simp]:
  "a < length h \<Longrightarrow> has_hashable (h @ ext) k a = has_hashable h k a"
  by (simp add: has_hashable_def)

lemma values_of_append:
  "\<forall>a\<in>set as. a < length h \<Longrightarrow> values_of (h @ ext) k as = values_of h k as"
  by (rule values_of_cong) simp_all

lemma kept_append: "data_model h d \<Longrightarrow> kept (h @ ext) d K = kept h d K"
  unfolding kept_def by (rule filter_cong) (simp_all add: data_model_less)

lemma data_model_append: "data_model h d \<Longrightarrow> data_model (h @ ext) d"
proof -
  assume dm: "data_model h d"
  then have lt: "\<forall>a\<in>set (annotations d). a < length h"
    by (simp add: data_model_less)
  with dm show ?thesis
    by (simp add: data_model_def values_of_append list_all_iff)
qed

lemma renumbered_append:
  "\<forall>a\<in>set sel. a < length h \<Longrightarrow> renumbered (h @ ext) sel i = renumbered h sel i"
  by (induction sel arbitrary: i) simp_all

lemma kept_less: "data_model h d \<Longrightarrow> \<forall>a\<in>set (kept h d K). a < length h"
  using kept_subset data_model_less by blast

lemma filtered_map_append: "data_model h d \<Longrightarrow> filtered_map (h @ ext) d K = filtered_map h d K"
  using kept_less[of h d K]
  by (auto simp: filtered_map_def kept_append fun_eq_iff)

lemma filtered_classes_append:
  "data_model h d \<Longrightarrow> filtered_classes (h @ ext) d K = filtered_classes h d K"
  using kept_less[of h d K]
  by (simp add: filtered_classes_def kept_append values_of_append)

lemma filtered_image_ids_append:
  assumes "data_model h d"
  shows "filtered_image_ids (h @ ext) d K = filtered_image_ids h d K"
proof -
  have "field (h @ ext) (kept h d K ! j) k = field h (kept h d K ! j) k"
    if "j < length (kept h d K)" for j k
    using kept_less[OF assms, of K] that by simp
  then have f: "filter (\<lambda>j. field (h @ ext) (kept h d K ! j) ''image_id'' = Some k) [0..<length (kept h d K)]
      = filter (\<lambda>j. field h (kept h d K ! j) ''image_id'' = Some k) [0..<length (kept h d K)]" for k
    by (intro filter_cong) simp_all
  have "ids_on_image (filtered_heap (h @ ext) d K) k (fresh (h @ ext) (length (kept (h @ ext) d K)))
      = ids_on_image (filtered_heap h d K) k (fresh h (length (kept h d K)))" for k
    unfolding ids_on_image_fresh[OF assms] ids_on_image_fresh[OF data_model_append[OF assms]]
    by (simp only: kept_append[OF assms] f)
  then show ?thesis
    unfolding filtered_image_ids_def by (simp cong: if_cong)
qed

lemma filtered_data_append:
  assumes "data_model h d"
  shows "filtered_data (h @ ext) d K nm
     = (filtered_data h d K nm)\<lparr>annotations := fresh (h @ ext) (length (kept h d K))\<rparr>"
  by (simp add: filtered_data_def kept_append[OF assms] filtered_classes_append[OF assms]
      filtered_image_ids_append[OF assms])

lemma filtered_heap_append:
  assumes "data_model h d"
  shows "filtered_heap (h @ ext) d K = h @ ext @ renumbered h (kept h d K) 0"
  using kept_less[OF assms, of K]
  by (simp add: filtered_heap_def kept_append[OF assms] renumbered_append)

lemma contents_fresh:
  "map (\<lambda>a. (h @ renumbered h0 sel 0 @ ext) ! a) (fresh h (length sel)) = renumbered h0 sel 0"
  by (rule nth_equalityI) (simp_all add: nth_append)

lemma info_of_append:
  assumes "has_info h a" and "a < length h"
  shows "info_of (h @ ext) a = info_of h a"
proof -
  from assms(1) obtain r where r: "field h a ''info'' = Some (PRef r)" "is_dict h r"
    "info_of h a = Some (dict_of h r)" by (rule has_info_cases)
  then show ?thesis
    using assms(2) is_dict_less[OF r(2)] by (simp add: info_of_def)
qed

lemma links_append:
  assumes "has_info h a" and "a < length h"
  shows "has_info (h @ ext) a" "matched_with (h @ ext) a = matched_with h a"
    "get_matched (h @ ext) a = get_matched h a"
  using assms info_of_append[OF assms, of ext]
  by (simp_all add: has_info_def matched_with_def get_matched_def)

lemma links_ok_append:
  assumes "data_model h preds" and "links_ok h preds"
  shows "links_ok (h @ ext) preds"
  using assms data_model_less[OF assms(1)]
  by (simp add: links_ok_def links_append)

lemma assoc_sets_append:
  assumes dm: "data_model h preds" and lk: "links_ok h preds"
  shows "assoc_gts_set (h @ ext) preds Kp = assoc_gts_set h preds Kp"
    and "assoc_preds_set (h @ ext) preds F = assoc_preds_set h preds F"
proof -
  have *: "matched_with (h @ ext) a = matched_with h a" "get_matched (h @ ext) a = get_matched h a"
    "id_in (h @ ext) Kp a = id_in h Kp a" "field (h @ ext) a ''_id'' = field h a ''_id''"
    if "a \<in> set (annotations preds)" for a
    using lk that data_model_less[OF dm that] by (simp_all add: links_ok_def links_append)
  show "assoc_gts_set (h @ ext) preds Kp = assoc_gts_set h preds Kp"
    unfolding assoc_gts_set_def using *(1,3) by auto
  show "assoc_preds_set (h @ ext) preds F = assoc_preds_set h preds F"
    unfolding assoc_preds_set_def using *(2,4) by auto
qed

subsection \<open>What the enlarger returns\<close>

lemma enlarge_ok:
  assumes dmg: "data_model h gts" and dmp: "data_model h preds" and lk: "links_ok h preds"
  shows "enlarge_dataset_to_respect_TIDE h gts preds Kg Kp =
     Inr (filtered_heap (filtered_heap h gts (filetered_gts_set h preds Kg Kp)) preds
            (filetered_preds_set h preds Kg Kp),
          filtered_data h gts (filetered_gts_set h preds Kg Kp) ''filtered_data'',
          filtered_data (filtered_heap h gts (filetered_gts_set h preds Kg Kp)) preds
            (filetered_preds_set h preds Kg Kp) ''filtered_data'',
          filtered_map h gts (filetered_gts_set h preds Kg Kp),
          filtered_map h preds (filetered_preds_set h preds Kg Kp))"
proof -
  let ?F = "filetered_gts_set h preds Kg Kp"
  let ?P = "filetered_preds_set h preds Kg Kp"
  let ?h1 = "filtered_heap h gts ?F"
  have dmp1: "data_model ?h1 preds"
    unfolding filtered_heap_def by (rule data_model_append[OF dmp])
  have m: "filtered_map ?h1 preds ?P = filtered_map h preds ?P"
    unfolding filtered_heap_def by (rule filtered_map_append[OF dmp])
  show ?thesis
    unfolding enlarge_dataset_to_respect_TIDE_def assoc_gts_ok[OF dmp lk] ebind_Inr Let_def
      filetered_gts_set_def[symmetric] assoc_preds_ok[OF dmp lk]
      filetered_preds_set_def[symmetric] create_filtered_Data_ok[OF dmg] prod.case
      create_filtered_Data_ok[OF dmp1] m
    by (rule refl)
qed

lemma links_ok_valid:
  assumes dmg: "data_model h gts"
    and hi: "\<forall>a\<in>set (annotations preds). has_info h a"
    and valid: "\<forall>a\<in>set (annotations preds). \<forall>g. matched_with h a = Some g
                  \<longrightarrow> g \<in> set (values_of h ''_id'' (annotations gts))"
  shows "links_ok h preds"
proof -
  have "hashable (get_matched h a)" if a: "a \<in> set (annotations preds)" for a
  proof (cases "matched_with h a")
    case None
    then show ?thesis by (simp add: get_matched_def)
  next
    case (Some g)
    with valid a have "g \<in> set (values_of h ''_id'' (annotations gts))" by blast
    then obtain b where "b \<in> set (annotations gts)" "field h b ''_id'' = Some g"
      by (auto simp: set_values_of)
    with data_model_ann(1)[OF dmg this(1)] have "hashable g"
      by (auto simp: has_hashable_iff)
    with Some show ?thesis by (simp add: get_matched_def)
  qed
  with hi show ?thesis by (simp add: links_ok_def)
qed

lemma get_matched_Some: "matched_with h a = Some g \<Longrightarrow> get_matched h a = g"
  by (simp add: get_matched_def)

lemma is_dict_store0: "is_dict store0 2" "is_dict store0 5"
  by (simp_all add: is_dict_def store0_def)

lemma info_of_store0:
  "info_of store0 4 = Some (dict_of store0 2)" "info_of store0 6 = Some (dict_of store0 5)"
  by (simp_all add: info_of_def field_store0 is_dict_store0)

lemma has_info_store0: "has_info store0 4" "has_info store0 6"
  by (simp_all add: has_info_def info_of_store0)

lemma matched_with_store0:
  "matched_with store0 4 = Some (PInt 0)" "matched_with store0 6 = None"
  using field_store0(12,13)
  by (simp_all add: matched_with_def info_of_store0 field_dict_of[OF is_dict_store0(1)]
      field_dict_of[OF is_dict_store0(2)])

subsection \<open>Running the enlarger on its own output ids\<close>

lemma ids_unique:
  assumes "ids_dense h d" and "a \<in> set (annotations d)" and "b \<in> set (annotations d)"
    and "field h a ''_id'' = Some v" and "field h b ''_id'' = Some v"
  shows "a = b"
proof -
  from assms(2,3) obtain i j where i: "i < length (annotations d)" "a = annotations d ! i"
    and j: "j < length (annotations d)" "b = annotations d ! j"
    by (auto simp: in_set_conv_nth)
  from ids_dense_nth[OF assms(1) i(1)] ids_dense_nth[OF assms(1) j(1)] assms(4,5) i(2) j(2)
  have "PInt (int i) = PInt (int j)" by simp
  then have "i = j" by simp
  with i j show ?thesis by simp
qed

lemma kept_cong:
  "(\<And>a. a \<in> set (annotations d) \<Longrightarrow> id_in h K a = id_in h K' a) \<Longrightarrow> kept h d K = kept h d K'"
  unfolding kept_def by (rule filter_cong) simp_all

lemma same_filtered:
  assumes dm: "data_model h d" and k: "kept h d K' = kept h d K"
  shows "filtered_map (h @ e1) d K' = filtered_map h d K"
    and "same_data (filtered_heap (h @ e1) d K' @ e2) (filtered_data (h @ e1) d K' nm)
           (filtered_heap h d K @ e3) (filtered_data h d K nm)"
proof -
  have "filtered_map (h @ e1) d K' = filtered_map h d K'"
    by (rule filtered_map_append[OF dm])
  also have "\<dots> = filtered_map h d K"
    unfolding filtered_map_def k by (rule refl)
  finally show "filtered_map (h @ e1) d K' = filtered_map h d K" .
  have c: "filtered_classes h d K' = filtered_classes h d K"
    unfolding filtered_classes_def k by (rule refl)
  have fh: "filtered_heap h d K' = filtered_heap h d K"
    unfolding filtered_heap_def k by (rule refl)
  have i: "filtered_image_ids h d K' = filtered_image_ids h d K"
    unfolding filtered_image_ids_def fh k by (rule refl)
  have a: "map (\<lambda>a. (filtered_heap (h @ e1) d K' @ e2) ! a) (fresh (h @ e1) (length (kept h d K)))
      = renumbered h (kept h d K) 0"
    using contents_fresh[of "h @ e1" h "kept h d K" e2]
    by (simp add: filtered_heap_append[OF dm] k)
  have b: "map (\<lambda>a. (filtered_heap h d K @ e3) ! a) (fresh h (length (kept h d K)))
      = renumbered h (kept h d K) 0"
    using contents_fresh[of h h "kept h d K" e3]
    by (simp add: filtered_heap_def)
  show "same_data (filtered_heap (h @ e1) d K' @ e2) (filtered_data (h @ e1) d K' nm)
           (filtered_heap h d K @ e3) (filtered_data h d K nm)"
    unfolding same_data_def filtered_data_append[OF dm]
    using a b by (simp add: filtered_data_def c i k)
qed

lemma enlarge_run_links:
  assumes dmp: "data_model h preds"
    and hi: "\<forall>a\<in>set (annotations preds). has_info h a"
    and run: "enlarge_dataset_to_respect_TIDE h gts preds Kg Kp = Inr r"
  shows "links_ok h preds"
proof -
  from run obtain S1 S2 where
    "comprehension (pred_link h (Kg \<union> S1)) (annotations preds) = Inr S2"
    unfolding enlarge_dataset_to_respect_TIDE_def Let_def
    by (auto simp: ebind_eq_Inr)
  then show ?thesis
    by (rule links_ok_from_run[OF dmp hi])
qed

lemma fixpoint_sets:
  fixes h :: heap and gts preds :: Data and Kg Kp :: "pyval set"
  assumes dmg: "data_model h gts" and invp: "invariants h preds" and lk: "links_ok h preds"
  defines "F \<equiv> filetered_gts_set h preds Kg Kp"
    and "P \<equiv> filetered_preds_set h preds Kg Kp"
  defines "F' \<equiv> filetered_gts_set h preds (ran (filtered_map h gts F)) (ran (filtered_map h preds P))"
  defines "P' \<equiv> filetered_preds_set h preds (ran (filtered_map h gts F)) (ran (filtered_map h preds P))"
  shows "kept h gts F' = kept h gts F" and "kept h preds P' = kept h preds P"
proof -
  have dmp: "data_model h preds" and dense: "ids_dense h preds"
    using invp by (simp_all add: invariants_def)
  let ?gm = "filtered_map h gts F" and ?pm = "filtered_map h preds P"
  have rg: "ran ?gm = {v. v \<in> F \<and> (\<exists>a\<in>set (annotations gts). field h a ''_id'' = Some v)}"
    by (rule ran_filtered_map[OF dmg])
  have rp: "ran ?pm = {v. v \<in> P \<and> (\<exists>a\<in>set (annotations preds). field h a ''_id'' = Some v)}"
    by (rule ran_filtered_map[OF dmp])
  have A: "id_in h (ran ?pm) a = id_in h P a" if "a \<in> set (annotations preds)" for a
    using that by (auto simp: id_in_def rp split: option.splits)
  have B: "assoc_gts_set h preds (ran ?pm) \<subseteq> F"
  proof
    fix g assume "g \<in> assoc_gts_set h preds (ran ?pm)"
    then obtain a where a: "a \<in> set (annotations preds)" and m: "matched_with h a = Some g"
      and "id_in h (ran ?pm) a"
      by (auto simp: assoc_gts_set_def)
    then have "id_in h P a" by (simp add: A)
    then obtain v where v: "field h a ''_id'' = Some v" "v \<in> P"
      by (auto simp: id_in_def split: option.splits)
    from v(2) consider "v \<in> Kp" | "v \<in> assoc_preds_set h preds F"
      by (auto simp: P_def filetered_preds_set_def F_def)
    then show "g \<in> F"
    proof cases
      case 1
      with v(1) have "id_in h Kp a" by (simp add: id_in_def)
      with a m have "g \<in> assoc_gts_set h preds Kp"
        by (auto simp: assoc_gts_set_def)
      then show ?thesis by (simp add: F_def filetered_gts_set_def)
    next
      case 2
      then obtain a' where a': "a' \<in> set (annotations preds)" "get_matched h a' \<in> F"
        "field h a' ''_id'' = Some v"
        by (auto simp: assoc_preds_set_def)
      from ids_unique[OF dense a a'(1) v(1) a'(3)] have "a = a'" .
      with a'(2) get_matched_Some[OF m] show ?thesis by simp
    qed
  qed
  have F'F: "F' \<subseteq> F"
    using B rg by (auto simp: F'_def filetered_gts_set_def)
  have C: "id_in h F' b = id_in h F b" if "b \<in> set (annotations gts)" for b
  proof (cases "field h b ''_id''")
    case None
    then show ?thesis by (simp add: id_in_def)
  next
    case (Some v)
    have "v \<in> F \<Longrightarrow> v \<in> F'"
      using that Some by (auto simp: F'_def filetered_gts_set_def rg)
    with F'F Some show ?thesis by (auto simp: id_in_def)
  qed
  show "kept h gts F' = kept h gts F"
    by (rule kept_cong) (rule C)
  have D: "id_in h P' a = id_in h P a" if "a \<in> set (annotations preds)" for a
  proof (cases "field h a ''_id''")
    case None
    then show ?thesis by (simp add: id_in_def)
  next
    case (Some v)
    have 1: "v \<in> P \<Longrightarrow> v \<in> P'"
      using that Some by (auto simp: P'_def filetered_preds_set_def rp)
    have 2: "v \<in> P" if "v \<in> P'"
    proof -
      from that consider "v \<in> ran ?pm" | "v \<in> assoc_preds_set h preds F'"
        by (auto simp: P'_def filetered_preds_set_def F'_def)
      then show ?thesis
      proof cases
        case 1
        then show ?thesis by (simp add: rp)
      next
        case 2
        with F'F have "v \<in> assoc_preds_set h preds F"
          by (auto simp: assoc_preds_set_def)
        then show ?thesis by (simp add: P_def filetered_preds_set_def F_def)
      qed
    qed
    from 1 2 Some show ?thesis by (auto simp: id_in_def)
  qed
  show "kept h preds P' = kept h preds P"
    by (rule kept_cong) (rule D)
qed

lemma same_data_via:
  "same_data h1 d1 h3 d3 \<Longrightarrow> same_data h2 d2 h3 d3 \<Longrightarrow> same_data h1 d1 h2 d2"
  by (simp add: same_data_def)

lemma enlarge_again:
  fixes h :: heap and gts preds :: Data and Kg Kp :: "pyval set"
  assumes invg: "invariants h gts" and invp: "invariants h preds" and lk: "links_ok h preds"
  defines "F \<equiv> filetered_gts_set h preds Kg Kp"
    and "P \<equiv> filetered_preds_set h preds Kg Kp"
  defines "h1 \<equiv> filtered_heap (filtered_heap h gts F) preds P"
    and "gm \<equiv> filtered_map h gts F" and "pm \<equiv> filtered_map h preds P"
  defines "F' \<equiv> filetered_gts_set h1 preds (ran gm) (ran pm)"
    and "P' \<equiv> filetered_preds_set h1 preds (ran gm) (ran pm)"
  defines "h2 \<equiv> filtered_heap (filtered_heap h1 gts F') preds P'"
  shows "filtered_map h1 gts F' = gm" and "filtered_map h1 preds P' = pm"
    and "same_data h2 (filtered_data h1 gts F' ''filtered_data'')
           h1 (filtered_data h gts F ''filtered_data'')"
    and "same_data h2 (filtered_data (filtered_heap h1 gts F') preds P' ''filtered_data'')
           h1 (filtered_data (filtered_heap h gts F) preds P ''filtered_data'')"
    and "data_model h1 gts" and "data_model h1 preds" and "links_ok h1 preds"
proof -
  have dmg: "data_model h gts" and dmp: "data_model h preds"
    using invg invp by (simp_all add: invariants_def)
  let ?Rg = "renumbered h (kept h gts F) 0"
  let ?Rp = "renumbered h (kept h preds P) 0"
  let ?E = "?Rg @ ?Rp"
  have H1: "filtered_heap h gts F = h @ ?Rg"
    by (simp add: filtered_heap_def)
  have h1: "h1 = h @ ?E"
    unfolding h1_def H1 filtered_heap_append[OF dmp] by simp
  show dmg1: "data_model h1 gts" and dmp1: "data_model h1 preds" and lk1: "links_ok h1 preds"
    unfolding h1
    by (rule data_model_append[OF dmg], rule data_model_append[OF dmp],
        rule links_ok_append[OF dmp lk])
  have F': "F' = filetered_gts_set h preds (ran gm) (ran pm)"
    unfolding F'_def h1 filetered_gts_set_def assoc_sets_append[OF dmp lk] by (rule refl)
  have P': "P' = filetered_preds_set h preds (ran gm) (ran pm)"
    unfolding P'_def h1 filetered_preds_set_def filetered_gts_set_def assoc_sets_append[OF dmp lk]
    by (rule refl)
  have kg: "kept h gts F' = kept h gts F"
    unfolding F' gm_def pm_def F_def P_def by (rule fixpoint_sets(1)[OF dmg invp lk])
  have kp: "kept h preds P' = kept h preds P"
    unfolding P' gm_def pm_def F_def P_def by (rule fixpoint_sets(2)[OF dmg invp lk])
  show "filtered_map h1 gts F' = gm"
    unfolding h1 gm_def by (rule same_filtered(1)[OF dmg kg])
  show "filtered_map h1 preds P' = pm"
    unfolding h1 pm_def by (rule same_filtered(1)[OF dmp kp])
  have H1': "filtered_heap h1 gts F' = h @ (?E @ ?Rg)"
    unfolding h1 filtered_heap_append[OF dmg] kg by simp
  have h2: "h2 = filtered_heap h1 gts F' @ renumbered h (kept h preds P) 0"
    unfolding h2_def H1' filtered_heap_append[OF dmp] kp by simp
  have h1': "h1 = filtered_heap h gts F @ ?Rp"
    unfolding h1 H1 by simp
  show "same_data h2 (filtered_data h1 gts F' ''filtered_data'')
           h1 (filtered_data h gts F ''filtered_data'')"
    unfolding h2 unfolding h1' unfolding h1
    using same_filtered(2)[OF dmg kg, where ?e1.0 = ?E and ?e2.0 = ?Rp and nm = "''filtered_data''"
        and ?e3.0 = ?Rp]
    unfolding H1 by simp
  have a: "same_data h2 (filtered_data (filtered_heap h1 gts F') preds P' ''filtered_data'')
      (filtered_heap h preds P) (filtered_data h preds P ''filtered_data'')"
    using same_filtered(2)[OF dmp kp, where ?e1.0 = "?E @ ?Rg" and ?e2.0 = "[]"
        and nm = "''filtered_data''" and ?e3.0 = "[]"]
    unfolding h2_def H1' by simp
  have b: "same_data h1 (filtered_data (filtered_heap h gts F) preds P ''filtered_data'')
      (filtered_heap h preds P) (filtered_data h preds P ''filtered_data'')"
    using same_filtered(2)[OF dmp refl, where K = P and ?e1.0 = ?Rg and ?e2.0 = "[]"
        and nm = "''filtered_data''" and ?e3.0 = "[]"]
    unfolding h1_def H1 by simp
  show "same_data h2 (filtered_data (filtered_heap h1 gts F') preds P' ''filtered_data'')
           h1 (filtered_data (filtered_heap h gts F) preds P ''filtered_data'')"
    by (rule same_data_via[OF a b])
qed

lemma links_ok_store0: "links_ok store0 preds0"
proof (rule links_ok_valid[OF data_model_gts0])
  show "\<forall>a\<in>set (annotations preds0). has_info store0 a"
    by (simp add: preds0_def has_info_store0)
  show "\<forall>a\<in>set (annotations preds0). \<forall>g. matched_with store0 a = Some g
          \<longrightarrow> g \<in> set (values_of store0 ''_id'' (annotations gts0))"
    by (simp add: preds0_def matched_with_store0 gts0_def values_of_Cons field_store0)
qed

subsection \<open>Predictions without info, predictions without a match\<close>

lemma comprehension_first_error:
  assumes "\<forall>a\<in>set as. f a = Inl e \<or> (\<exists>r. f a = Inr r)" and "\<exists>a\<in>set as. f a = Inl e"
  shows "comprehension f as = Inl e"
  using assms
proof (induction as)
  case Nil
  then show ?case by simp
next
  case (Cons a as)
  show ?case
  proof (cases "f a")
    case (Inl e')
    with Cons.prems(1) have "e' = e" by auto
    with Inl show ?thesis by simp
  next
    case (Inr r)
    with Cons.prems have "\<exists>a\<in>set as. f a = Inl e" by auto
    moreover from Cons.prems(1) have "\<forall>a\<in>set as. f a = Inl e \<or> (\<exists>r. f a = Inr r)" by simp
    ultimately have "comprehension f as = Inl e" by (rule Cons.IH[rotated])
    with Inr show ?thesis by simp
  qed
qed

lemma comprehension_skip:
  "f a = Inr None \<Longrightarrow> comprehension f (xs @ a # ys) = comprehension f (xs @ ys)"
proof (induction xs)
  case Nil
  then show ?case by (cases "comprehension f ys") simp_all
next
  case (Cons x xs)
  then show ?case by simp
qed

lemma gt_link_no_info:
  assumes "is_dict h a" and "field h a ''info'' = None"
  shows "gt_link h Kp a = Inl (KeyError ''info'')"
proof -
  have "getitem h a ''info'' = Inl (KeyError ''info'')"
    using assms
    by (auto simp: is_dict_def field_def getitem_def split: obj.splits option.splits)
  then show ?thesis by (simp add: gt_link_def)
qed

lemma gt_link_unmatched:
  assumes "has_info h a" and "matched_with h a = None"
  shows "gt_link h Kp a = Inr None"
proof -
  from assms(1) obtain r where r: "field h a ''info'' = Some (PRef r)" "is_dict h r"
    "info_of h a = Some (dict_of h r)" by (rule has_info_cases)
  have "getitem h a ''info'' = Inr (PRef r)"
    using r by (simp add: getitem_Inr_iff)
  moreover have "py_contains h (PRef r) ''matched_with'' = Inr False"
    using r assms(2) by (simp add: py_contains_def is_dict_less is_dict_nth matched_with_def)
  ultimately show ?thesis by (simp add: gt_link_def)
qed

lemma pred_link_unmatched:
  assumes "has_info h a" and "matched_with h a = None" and "PNone \<notin> F"
  shows "pred_link h F a = Inr None"
proof -
  from assms(1) obtain r where r: "field h a ''info'' = Some (PRef r)" "is_dict h r"
    "info_of h a = Some (dict_of h r)" by (rule has_info_cases)
  have "getitem h a ''info'' = Inr (PRef r)"
    using r by (simp add: getitem_Inr_iff)
  moreover have "dict_get h (PRef r) ''matched_with'' = Inr PNone"
    using r assms(2) by (simp add: dict_get_def is_dict_less is_dict_nth matched_with_def)
  ultimately show ?thesis
    using assms(3) by (simp add: pred_link_def)
qed

lemma enlarge_no_info:
  assumes typed: "list_all (\<lambda>a. has_hashable h ''_id'' a
              \<and> (field h a ''info'' = None \<or> has_info h a \<and> hashable (get_matched h a)))
            (annotations preds)"
    and missing: "\<exists>a\<in>set (annotations preds). field h a ''info'' = None"
  shows "enlarge_dataset_to_respect_TIDE h gts preds Kg Kp = Inl (KeyError ''info'')"
proof -
  have each: "gt_link h Kp a = Inl (KeyError ''info'') \<or> (\<exists>r. gt_link h Kp a = Inr r)"
    and none: "field h a ''info'' = None \<Longrightarrow> gt_link h Kp a = Inl (KeyError ''info'')"
    if a: "a \<in> set (annotations preds)" for a
  proof -
    from typed a have id: "has_hashable h ''_id'' a"
      and info: "field h a ''info'' = None \<or> has_info h a \<and> hashable (get_matched h a)"
      by (simp_all add: list_all_iff)
    from id have d: "is_dict h a"
      by (auto simp: has_hashable_iff dest: field_Some_is_dict)
    show n: "field h a ''info'' = None \<Longrightarrow> gt_link h Kp a = Inl (KeyError ''info'')"
      by (rule gt_link_no_info[OF d])
    from info show "gt_link h Kp a = Inl (KeyError ''info'') \<or> (\<exists>r. gt_link h Kp a = Inr r)"
    proof
      assume "field h a ''info'' = None"
      then show ?thesis using n by simp
    next
      assume i: "has_info h a \<and> hashable (get_matched h a)"
      then show ?thesis
        using gt_link_ok[OF _ id, of Kp]
        by (cases "matched_with h a") (simp_all add: get_matched_def)
    qed
  qed
  have "comprehension (gt_link h Kp) (annotations preds) = Inl (KeyError ''info'')"
    using each none missing by (intro comprehension_first_error) blast+
  then show ?thesis
    by (simp add: enlarge_dataset_to_respect_TIDE_def)
qed

subsection \<open>Running the importer on the example records\<close>

lemmas importer_eval =
  json_to_Data_def ebind_def getitem_def setitem_def truthy_def append_to_def
  class_labels_def sortable_def comparable_def Data_init_def field_def image_entries_def
  str_int_def digit_def Let_def

lemma json_to_Data_both:
  "\<exists>h gts preds.
     json_to_Data both_store both_data = Inr (h, gts, preds)
     \<and> annotations gts = [2, 3]
     \<and> field h 2 ''_id'' = Some (PInt 0)
     \<and> field h 2 ''class'' = Some (PInt 1)
     \<and> field h 3 ''_id'' = Some (PInt 0)
     \<and> field h 3 ''gold'' = Some (PInt 2)
     \<and> field h 3 ''class'' = Some (PInt 3)
     \<and> dom (classes gts) = {PInt 1, PInt 2}
     \<and> (\<exists>img. images gts (PStr ''a'') = Some img \<and> anns img = [PInt 0, PInt 1])"
  by (simp add: importer_eval both_store_def both_data_def) auto

lemma gt_link_Some:
  assumes "gt_link h Kp b = Inr (Some v)"
  shows "matched_with h b = Some v"
proof -
  from assms obtain info where i: "getitem h b ''info'' = Inr info"
    and rest: "ebind (py_contains h info ''matched_with'') (\<lambda>has.
       if \<not> has then Inr None
       else
         ebind (getitem h b ''_id'') (\<lambda>i.
         ebind (py_in i Kp) (\<lambda>c.
           if \<not> c then Inr None
           else
             ebind (getitem h b ''info'') (\<lambda>info1.
             ebind (getitem_val h info1 ''matched_with'') (\<lambda>g.
               if hashable g then Inr (Some g) else Inl TypeError))))) = Inr (Some v)"
    unfolding gt_link_def by (auto simp: ebind_eq_Inr)
  from rest i have g: "getitem_val h info ''matched_with'' = Inr v"
    by (auto simp: ebind_eq_Inr split: if_splits)
  then obtain r where r: "info = PRef r" "getitem h r ''matched_with'' = Inr v"
    by (auto simp: getitem_val_def split: pyval.splits)
  then have f: "field h r ''matched_with'' = Some v"
    by (simp add: getitem_Inr_iff)
  then have d: "is_dict h r" by (rule field_Some_is_dict)
  from i r(1) have "field h b ''info'' = Some (PRef r)"
    by (simp add: getitem_Inr_iff)
  with d f show ?thesis
    by (simp add: matched_with_def info_of_def field_dict_of)
qed

lemma assoc_gts_no_None:
  assumes "comprehension (gt_link h Kp) as = Inr assoc_gts"
    and "\<forall>b\<in>set as. matched_with h b \<noteq> Some PNone"
  shows "PNone \<notin> assoc_gts"
proof
  assume "PNone \<in> assoc_gts"
  with assms(1) obtain b where "b \<in> set as" "gt_link h Kp b = Inr (Some PNone)"
    by (auto simp: comprehension_Inr_iff)
  with assms(2) gt_link_Some show False by blast
qed

lemma pred_link_None_in:
  assumes "has_info h a" and "matched_with h a = None" and "PNone \<in> F"
    and "field h a ''_id'' = Some i" and "hashable i"
  shows "pred_link h F a = Inr (Some i)"
proof -
  have "has_hashable h ''_id'' a"
    using assms(4,5) by (auto simp: has_hashable_iff)
  from pred_link_ok[OF assms(1) this, of F] assms(2,3,4) show ?thesis
    by (simp add: get_matched_def)
qed

lemma unmatched_pulled_in:
  "PInt 1 \<in> ran (filtered_map store0 preds0 (filetered_preds_set store0 preds0 {PNone} {}))"
proof -
  have a: "6 \<in> set (annotations preds0)"
    by (simp add: preds0_def)
  have g: "get_matched store0 6 = PNone"
    by (simp add: get_matched_def matched_with_store0)
  have "PInt 1 \<in> assoc_preds_set store0 preds0 (filetered_gts_set store0 preds0 {PNone} {})"
    unfolding assoc_preds_set_def
    using a g field_store0(8) by (auto simp: filetered_gts_set_def)
  then have "PInt 1 \<in> filetered_preds_set store0 preds0 {PNone} {}"
    by (simp add: filetered_preds_set_def)
  with a field_store0(8) show ?thesis
    unfolding ran_filtered_map[OF data_model_preds0] by blast
qed

section \<open>The claims\<close>

text \<open>C3. Subset Filter invariant preservation: for every dataset that satisfies the
  invariants and every set of ids to keep, \<^verbatim>\<open>create_filtered_Data\<close> returns, and the
  dataset it returns satisfies invariants 1 to 3 in the store it returns: the annotation at
  position \<open>i\<close> has \<^verbatim>\<open>_id\<close> \<open>i\<close>; the keys of \<^verbatim>\<open>images\<close> are the image ids of the
  retained annotations, each \<^verbatim>\<open>anns\<close> holding the new ids of the annotations of that
  image; the keys of \<^verbatim>\<open>classes\<close> are the classes of the retained annotations.\<close>

theorem create_filtered_Data_invariants:
  assumes "invariants h data"
  shows "\<exists>h1 data_filtered new_id_to_old_id.
           create_filtered_Data h data ids_keep data_name
             = Inr (h1, data_filtered, new_id_to_old_id)
           \<and> ids_dense h1 data_filtered
           \<and> images_consistent h1 data_filtered
           \<and> classes_consistent h1 data_filtered"
  using create_filtered_Data_ok[OF invariants_data_model[OF assms]]
    filtered_invariants[OF invariants_data_model[OF assms]]
  by (auto simp: invariants_def)

theorem create_filtered_Data_invariants_witness:
  "invariants store0 preds0
   \<and> (\<exists>h1 data_filtered new_id_to_old_id.
         create_filtered_Data store0 preds0 {PInt 1, PInt 9} ''filtered_data''
           = Inr (h1, data_filtered, new_id_to_old_id)
         \<and> ids_dense h1 data_filtered
         \<and> images_consistent h1 data_filtered
         \<and> classes_consistent h1 data_filtered)"
  using create_filtered_Data_invariants[OF invariants_preds0] invariants_preds0 by simp

text \<open>C5. Subset Filter selection semantics: for a dataset that satisfies the invariants,
  the annotations of the output are the input annotations whose \<^verbatim>\<open>_id\<close> is in
  \<^verbatim>\<open>ids_keep\<close>, in the order of the input (the list \<open>sel\<close>); the annotation at
  position \<open>j\<close> is a dictionary with the entries of \<open>sel ! j\<close> and \<^verbatim>\<open>_id\<close> set to
  \<open>j\<close>; \<^verbatim>\<open>new_id_to_old_id\<close> maps \<open>j\<close> to the old \<^verbatim>\<open>_id\<close> of \<open>sel ! j\<close>, has domain
  \<open>0, ..., K-1\<close>, is strictly increasing and injective.\<close>

theorem create_filtered_Data_selection:
  assumes "invariants h data"
  shows "\<exists>h1 data_filtered new_id_to_old_id.
      create_filtered_Data h data ids_keep data_name = Inr (h1, data_filtered, new_id_to_old_id)
      \<and> (let sel = filter (id_in h ids_keep) (annotations data);
              new = annotations data_filtered
          in length new = length sel
           \<and> (\<forall>j<length sel.
                 is_dict h1 (new ! j)
                 \<and> dict_of h1 (new ! j) = (dict_of h (sel ! j))(''_id'' \<mapsto> PInt (int j))
                 \<and> new_id_to_old_id j = field h (sel ! j) ''_id'')
           \<and> dom new_id_to_old_id = {0..<length sel}
           \<and> (\<forall>i j. i < j \<and> j < length sel \<longrightarrow>
                 (\<exists>x y. new_id_to_old_id i = Some (PInt x)
                      \<and> new_id_to_old_id j = Some (PInt y) \<and> x < y))
           \<and> inj_on new_id_to_old_id {0..<length sel})"
proof -
  have dm: "data_model h data" and dense: "ids_dense h data"
    using assms by (simp_all add: invariants_def)
  let ?sel = "kept h data ids_keep"
  let ?m = "filtered_map h data ids_keep"
  have inc: "\<exists>x y. ?m i = Some (PInt x) \<and> ?m j = Some (PInt y) \<and> x < y"
    if "i < j" "j < length ?sel" for i j
    using filtered_map_increasing[OF dense that] .
  have inj: "inj_on ?m {0..<length ?sel}"
  proof (rule inj_onI)
    fix i j assume ij: "i \<in> {0..<length ?sel}" "j \<in> {0..<length ?sel}" "?m i = ?m j"
    show "i = j"
    proof (rule ccontr)
      assume "i \<noteq> j"
      then consider "i < j" | "j < i" by linarith
      then show False
      proof cases
        case 1
        from inc[OF 1] ij show False by auto
      next
        case 2
        from inc[OF 2] ij show False by auto
      qed
    qed
  qed
  have each: "is_dict (filtered_heap h data ids_keep) (fresh h (length ?sel) ! j)
        \<and> dict_of (filtered_heap h data ids_keep) (fresh h (length ?sel) ! j)
            = (dict_of h (?sel ! j))(''_id'' \<mapsto> PInt (int j))
        \<and> ?m j = field h (?sel ! j) ''_id''"
    if "j < length ?sel" for j
    using dict_of_filtered_heap[OF dm that] that by (simp add: filtered_map_def)
  show ?thesis
    unfolding create_filtered_Data_ok[OF dm]
    using each inc inj dom_filtered_map[OF dm, of ids_keep]
    by (simp add: Let_def filtered_data_def kept_def[symmetric])
qed

theorem create_filtered_Data_selection_witness:
  "invariants store0 preds0
   \<and> (\<exists>h1 data_filtered new_id_to_old_id.
      create_filtered_Data store0 preds0 {PInt 1, PInt 9} ''filtered_data''
        = Inr (h1, data_filtered, new_id_to_old_id)
      \<and> (let sel = filter (id_in store0 {PInt 1, PInt 9}) (annotations preds0);
              new = annotations data_filtered
          in length new = length sel
           \<and> (\<forall>j<length sel.
                 is_dict h1 (new ! j)
                 \<and> dict_of h1 (new ! j) = (dict_of store0 (sel ! j))(''_id'' \<mapsto> PInt (int j))
                 \<and> new_id_to_old_id j = field store0 (sel ! j) ''_id'')
           \<and> dom new_id_to_old_id = {0..<length sel}
           \<and> (\<forall>i j. i < j \<and> j < length sel \<longrightarrow>
                 (\<exists>x y. new_id_to_old_id i = Some (PInt x)
                      \<and> new_id_to_old_id j = Some (PInt y) \<and> x < y))
           \<and> inj_on new_id_to_old_id {0..<length sel}))"
  using invariants_preds0
    create_filtered_Data_selection[OF invariants_preds0, of "{PInt 1, PInt 9}" "''filtered_data''"]
  by (rule conjI)

text \<open>C7. Unknown ids are ignored: for a dataset that satisfies the invariants and any
  \<^verbatim>\<open>ids_keep\<close>, \<^verbatim>\<open>create_filtered_Data\<close> returns, and returns what it returns for
  \<^verbatim>\<open>ids_keep\<close> intersected with the ids of the dataset; for the empty set it returns
  the store as it was, a dataset with no annotations, no classes and no images, and the
  empty id map.\<close>

theorem create_filtered_Data_unknown_ids:
  assumes "invariants h data"
  shows "(\<exists>r. create_filtered_Data h data ids_keep data_name = Inr r)
    \<and> create_filtered_Data h data ids_keep data_name
        = create_filtered_Data h data
            (ids_keep \<inter> set (values_of h ''_id'' (annotations data))) data_name
    \<and> create_filtered_Data h data {} data_name
        = Inr (h, \<lparr>name = data_name, annotations = [], classes = Map.empty,
                   images = Map.empty\<rparr>, Map.empty)"
proof -
  have dm: "data_model h data"
    using assms by (rule invariants_data_model)
  have "create_filtered_Data h data (ids_keep \<inter> set (values_of h ''_id'' (annotations data))) data_name
      = create_filtered_Data h data ids_keep data_name"
    by (rule create_filtered_Data_cong) (rule id_in_Int)
  then show ?thesis
    using create_filtered_Data_ok[OF dm, of ids_keep data_name] create_filtered_Data_empty[OF dm]
    by simp
qed

theorem create_filtered_Data_unknown_ids_witness:
  "invariants store0 gts0
    \<and> (\<exists>r. create_filtered_Data store0 gts0 {PInt 0, PInt 7, PStr ''x''} ''filtered_data'' = Inr r)
    \<and> create_filtered_Data store0 gts0 {PInt 0, PInt 7, PStr ''x''} ''filtered_data''
        = create_filtered_Data store0 gts0
            ({PInt 0, PInt 7, PStr ''x''} \<inter> set (values_of store0 ''_id'' (annotations gts0)))
            ''filtered_data''
    \<and> create_filtered_Data store0 gts0 {} ''filtered_data''
        = Inr (store0, \<lparr>name = ''filtered_data'', annotations = [], classes = Map.empty,
                   images = Map.empty\<rparr>, Map.empty)"
  using invariants_gts0
    create_filtered_Data_unknown_ids[OF invariants_gts0, of "{PInt 0, PInt 7, PStr ''x''}" "''filtered_data''"]
  by (rule conjI)

text \<open>C8, as amended. For a dataset that satisfies the invariants, the filter leaves every
  object of the store as it was (so each source annotation keeps its \<^verbatim>\<open>_id\<close>), and the
  annotations of the returned dataset are new, distinct dictionaries. They are shallow
  copies: every field but \<^verbatim>\<open>_id\<close> holds the value it holds in the source annotation, so
  a list or mapping stored in a field (\<^verbatim>\<open>info\<close>, \<^verbatim>\<open>bbox\<close>) is the same object on both
  sides.\<close>

theorem create_filtered_Data_frame:
  assumes "invariants h data"
  shows "\<exists>h1 data_filtered new_id_to_old_id.
      create_filtered_Data h data ids_keep data_name = Inr (h1, data_filtered, new_id_to_old_id)
      \<and> take (length h) h1 = h
      \<and> (\<forall>a\<in>set (annotations data). field h1 a ''_id'' = field h a ''_id'')
      \<and> distinct (annotations data_filtered)
      \<and> (\<forall>a\<in>set (annotations data_filtered). length h \<le> a \<and> is_dict h1 a)
      \<and> (let sel = filter (id_in h ids_keep) (annotations data) in
           \<forall>j<length sel. \<forall>k. k \<noteq> ''_id'' \<longrightarrow>
             field h1 (annotations data_filtered ! j) k = field h (sel ! j) k)"
proof -
  have dm: "data_model h data"
    using assms by (rule invariants_data_model)
  let ?sel = "kept h data ids_keep"
  let ?h1 = "filtered_heap h data ids_keep"
  have old: "field ?h1 a ''_id'' = field h a ''_id''" if "a \<in> set (annotations data)" for a
    using is_dict_less[OF data_model_ann(4)[OF dm that]] by (rule field_filtered_heap_old)
  have new: "length h \<le> a \<and> is_dict ?h1 a" if "a \<in> set (fresh h (length ?sel))" for a
  proof -
    from that have "length h \<le> a" "a < length h + length ?sel"
      by (simp_all add: set_fresh)
    then have "a - length h < length ?sel" "a = length h + (a - length h)"
      by simp_all
    then obtain j where j: "j < length ?sel" and a: "a = length h + j"
      by blast
    from dict_of_filtered_heap(1)[OF dm j] a show ?thesis by simp
  qed
  have shared: "field ?h1 (fresh h (length ?sel) ! j) k = field h (?sel ! j) k"
    if "j < length ?sel" "k \<noteq> ''_id''" for j k
    using field_filtered_heap[OF dm that(1), of k] that by simp
  show ?thesis
    unfolding create_filtered_Data_ok[OF dm]
    using old new shared
    by (simp add: Let_def take_filtered_heap filtered_data_def kept_def[symmetric] fresh_def)
qed

theorem create_filtered_Data_frame_witness:
  "invariants store0 preds0
   \<and> (\<exists>h1 data_filtered new_id_to_old_id.
      create_filtered_Data store0 preds0 {PInt 0} ''filtered_data''
        = Inr (h1, data_filtered, new_id_to_old_id)
      \<and> take (length store0) h1 = store0
      \<and> (\<forall>a\<in>set (annotations preds0). field h1 a ''_id'' = field store0 a ''_id'')
      \<and> distinct (annotations data_filtered)
      \<and> (\<forall>a\<in>set (annotations data_filtered). length store0 \<le> a \<and> is_dict h1 a)
      \<and> (let sel = filter (id_in store0 {PInt 0}) (annotations preds0) in
           \<forall>j<length sel. \<forall>k. k \<noteq> ''_id'' \<longrightarrow>
             field h1 (annotations data_filtered ! j) k = field store0 (sel ! j) k))"
  using invariants_preds0
    create_filtered_Data_frame[OF invariants_preds0, of "{PInt 0}" "''filtered_data''"]
  by (rule conjI)

text \<open>C8 as stated fails: filtering the predictions of the example store to id 0 returns an
  annotation whose \<^verbatim>\<open>info\<close> is the mapping at address 2, which the input annotation
  holds too.\<close>

theorem create_filtered_Data_shares_state:
  "invariants store0 preds0
   \<and> (case create_filtered_Data store0 preds0 {PInt 0} ''filtered_data'' of
        Inl e \<Rightarrow> False
      | Inr (h1, data_filtered, new_id_to_old_id) \<Rightarrow>
          2 \<in> state_of store0 preds0 \<inter> state_of h1 data_filtered)"
  using invariants_preds0 shared_info_input shared_info_output
  by (simp add: create_filtered_Data_ok[OF data_model_preds0])

text \<open>C6, as amended. Filtering a dataset that satisfies the invariants to the full set of
  its ids \<open>0, ..., N-1\<close> returns annotations whose dictionaries equal the input's, and the
  identity id map. The classes and images of the output have the keys of the input's, and
  each image lists the same ids; the labels, the names and the order of the ids are built
  anew (\<^verbatim>\<open>"Class {c}"\<close>, \<^verbatim>\<open>"Image {i}"\<close>, ascending), so classes and images equal the
  input's when the input has that form.\<close>

theorem create_filtered_Data_full_set:
  assumes "invariants h data"
  shows "\<exists>h1 data_filtered new_id_to_old_id.
      create_filtered_Data h data ((\<lambda>j. PInt (int j)) ` {0..<length (annotations data)}) data_name
        = Inr (h1, data_filtered, new_id_to_old_id)
      \<and> map (\<lambda>a. h1 ! a) (annotations data_filtered) = map (\<lambda>a. h ! a) (annotations data)
      \<and> new_id_to_old_id
          = (\<lambda>j. if j < length (annotations data) then Some (PInt (int j)) else None)
      \<and> dom (classes data_filtered) = dom (classes data)
      \<and> dom (images data_filtered) = dom (images data)
      \<and> (\<forall>k img img'. images data k = Some img \<and> images data_filtered k = Some img'
            \<longrightarrow> set (anns img') = set (anns img))
      \<and> (synthesized data
            \<longrightarrow> classes data_filtered = classes data \<and> images data_filtered = images data)"
proof -
  have dm: "data_model h data"
    using assms by (rule invariants_data_model)
  note f = full_filter[OF assms]
  let ?d1 = "filtered_data h data (all_ids data) data_name"
  have f5: "\<forall>k img img'. images data k = Some img \<and> images ?d1 k = Some img'
            \<longrightarrow> set (anns img') = set (anns img)"
    using f(5) by blast
  have f67: "synthesized data \<longrightarrow> classes ?d1 = classes data \<and> images ?d1 = images data"
    using f(6,7) by blast
  have "create_filtered_Data h data (all_ids data) data_name
        = Inr (filtered_heap h data (all_ids data), ?d1, filtered_map h data (all_ids data))
      \<and> map (\<lambda>a. filtered_heap h data (all_ids data) ! a) (annotations ?d1)
          = map (\<lambda>a. h ! a) (annotations data)
      \<and> filtered_map h data (all_ids data)
          = (\<lambda>j. if j < length (annotations data) then Some (PInt (int j)) else None)
      \<and> dom (classes ?d1) = dom (classes data)
      \<and> dom (images ?d1) = dom (images data)
      \<and> (\<forall>k img img'. images data k = Some img \<and> images ?d1 k = Some img'
            \<longrightarrow> set (anns img') = set (anns img))
      \<and> (synthesized data \<longrightarrow> classes ?d1 = classes data \<and> images ?d1 = images data)"
    using create_filtered_Data_ok[OF dm, of "all_ids data" data_name] f(1)[of data_name] f(2)
      f(3)[of data_name] f(4)[of data_name] f5 f67
    by - (intro conjI; assumption)
  then show ?thesis
    unfolding all_ids_def
    apply -
    apply (rule exI)+
    apply assumption
    done
qed

theorem create_filtered_Data_full_set_witness:
  "invariants store0 preds0 \<and> synthesized preds0
   \<and> (\<exists>h1 data_filtered new_id_to_old_id.
      create_filtered_Data store0 preds0 {PInt 0, PInt 1} ''filtered_data''
        = Inr (h1, data_filtered, new_id_to_old_id)
      \<and> map (\<lambda>a. h1 ! a) (annotations data_filtered) = map (\<lambda>a. store0 ! a) (annotations preds0)
      \<and> new_id_to_old_id = (\<lambda>j. if j < 2 then Some (PInt (int j)) else None)
      \<and> classes data_filtered = classes preds0 \<and> images data_filtered = images preds0)"
proof -
  have s: "(\<lambda>j. PInt (int j)) ` {0..<2::nat} = {PInt 0, PInt 1}"
    by (auto simp: atLeastLessThanSuc numeral_2_eq_2)
  have l: "length (annotations preds0) = 2"
    by (simp add: preds0_def)
  from create_filtered_Data_full_set[OF invariants_preds0, of "''filtered_data''"]
  obtain h1 data_filtered new_id_to_old_id where r:
    "create_filtered_Data store0 preds0 {PInt 0, PInt 1} ''filtered_data''
        = Inr (h1, data_filtered, new_id_to_old_id)"
    "map (\<lambda>a. h1 ! a) (annotations data_filtered) = map (\<lambda>a. store0 ! a) (annotations preds0)"
    "new_id_to_old_id = (\<lambda>j. if j < 2 then Some (PInt (int j)) else None)"
    "synthesized preds0
      \<longrightarrow> classes data_filtered = classes preds0 \<and> images data_filtered = images preds0"
    unfolding s l by (elim exE conjE) (rule that; assumption)
  from r(4) synthesized_preds0 have e:
    "classes data_filtered = classes preds0" "images data_filtered = images preds0"
    by simp_all
  have "create_filtered_Data store0 preds0 {PInt 0, PInt 1} ''filtered_data''
        = Inr (h1, data_filtered, new_id_to_old_id)
      \<and> map (\<lambda>a. h1 ! a) (annotations data_filtered) = map (\<lambda>a. store0 ! a) (annotations preds0)
      \<and> new_id_to_old_id = (\<lambda>j. if j < 2 then Some (PInt (int j)) else None)
      \<and> classes data_filtered = classes preds0 \<and> images data_filtered = images preds0"
    using r(1) r(2) r(3) e by - (intro conjI; assumption)
  then have "\<exists>h1 data_filtered new_id_to_old_id.
      create_filtered_Data store0 preds0 {PInt 0, PInt 1} ''filtered_data''
        = Inr (h1, data_filtered, new_id_to_old_id)
      \<and> map (\<lambda>a. h1 ! a) (annotations data_filtered) = map (\<lambda>a. store0 ! a) (annotations preds0)
      \<and> new_id_to_old_id = (\<lambda>j. if j < 2 then Some (PInt (int j)) else None)
      \<and> classes data_filtered = classes preds0 \<and> images data_filtered = images preds0"
    apply -
    apply (rule exI)+
    apply assumption
    done
  with invariants_preds0 synthesized_preds0 show ?thesis
    by - (intro conjI; assumption)
qed

text \<open>C6 as stated fails: a dataset whose class 5 is labelled \<^verbatim>\<open>"cat"\<close> satisfies the
  invariants, and filtering it to all of its ids returns the label \<^verbatim>\<open>"Class 5"\<close>.\<close>

theorem create_filtered_Data_relabels:
  "invariants store0 gts_named
   \<and> (\<lambda>j. PInt (int j)) ` {0..<length (annotations gts_named)} = {PInt 0}
   \<and> classes gts_named (PInt 5) = Some ''cat''
   \<and> (case create_filtered_Data store0 gts_named {PInt 0} ''filtered_data'' of
        Inl e \<Rightarrow> False
      | Inr (h1, data_filtered, new_id_to_old_id) \<Rightarrow>
          classes data_filtered (PInt 5) = Some ''Class 5''
          \<and> classes data_filtered \<noteq> classes gts_named)"
proof -
  have dm: "data_model store0 gts_named"
    using invariants_gts_named by (rule invariants_data_model)
  have k: "kept store0 gts_named {PInt 0} = [3]"
    by (simp add: kept_def gts_named_def id_in_def field_store0)
  have c: "classes (filtered_data store0 gts_named {PInt 0} ''filtered_data'') (PInt 5)
      = Some ''Class 5''"
    by (simp add: filtered_data_def filtered_classes_def k values_of_Cons field_store0 str_int_small)
  have g: "classes gts_named (PInt 5) = Some ''cat''"
    by (simp add: gts_named_def)
  have "classes (filtered_data store0 gts_named {PInt 0} ''filtered_data'')
      \<noteq> classes gts_named"
  proof
    assume "classes (filtered_data store0 gts_named {PInt 0} ''filtered_data'') = classes gts_named"
    then have "classes (filtered_data store0 gts_named {PInt 0} ''filtered_data'') (PInt 5)
        = classes gts_named (PInt 5)"
      by (rule arg_cong)
    then show False
      unfolding c g by simp
  qed
  moreover have "(\<lambda>j. PInt (int j)) ` {0..<length (annotations gts_named)} = {PInt 0}"
    by (simp add: gts_named_def)
  ultimately show ?thesis
    using invariants_gts_named c g by (simp add: create_filtered_Data_ok[OF dm])
qed

text \<open>C1. Enlarger closure: for datasets that satisfy the invariants, where every prediction
  has an \<^verbatim>\<open>info\<close> mapping and every \<^verbatim>\<open>matched_with\<close> present is an \<^verbatim>\<open>_id\<close> of the
  ground truths, the enlarger returns, and (i) for every prediction whose \<^verbatim>\<open>_id\<close> is in
  \<^verbatim>\<open>preds_keep\<close> and that is matched with \<open>g\<close>, \<open>g\<close> is among the values of the
  ground-truth id map; (ii) for every \<open>g\<close> among those values, every prediction matched with
  \<open>g\<close>, kept or not, has its \<^verbatim>\<open>_id\<close> among the values of the prediction id map.\<close>

theorem enlarge_closure:
  assumes "invariants h gts" and "invariants h preds"
    and "\<forall>a\<in>set (annotations preds). has_info h a"
    and "\<forall>a\<in>set (annotations preds). \<forall>g. matched_with h a = Some g
            \<longrightarrow> g \<in> set (values_of h ''_id'' (annotations gts))"
  shows "\<exists>h2 gts_enlarged preds_enlarged gts_map preds_map.
      enlarge_dataset_to_respect_TIDE h gts preds gts_keep preds_keep
        = Inr (h2, gts_enlarged, preds_enlarged, gts_map, preds_map)
      \<and> (\<forall>a\<in>set (annotations preds). \<forall>p g.
            field h a ''_id'' = Some p \<and> p \<in> preds_keep \<and> matched_with h a = Some g
            \<longrightarrow> g \<in> ran gts_map)
      \<and> (\<forall>g\<in>ran gts_map. \<forall>a\<in>set (annotations preds).
            matched_with h a = Some g
            \<longrightarrow> (\<exists>p. field h a ''_id'' = Some p \<and> p \<in> ran preds_map))"
proof -
  have dmg: "data_model h gts" and dmp: "data_model h preds"
    using assms(1,2) by (simp_all add: invariants_def)
  have lk: "links_ok h preds"
    by (rule links_ok_valid[OF dmg assms(3,4)])
  let ?F = "filetered_gts_set h preds gts_keep preds_keep"
  let ?P = "filetered_preds_set h preds gts_keep preds_keep"
  have 1: "g \<in> ran (filtered_map h gts ?F)"
    if a: "a \<in> set (annotations preds)" and p: "field h a ''_id'' = Some p" "p \<in> preds_keep"
      and g: "matched_with h a = Some g" for a p g
  proof -
    have "g \<in> assoc_gts_set h preds preds_keep"
      unfolding assoc_gts_set_def using a p g by (auto simp: id_in_def)
    then have "g \<in> ?F" by (simp add: filetered_gts_set_def)
    moreover from assms(4) a g have "g \<in> set (values_of h ''_id'' (annotations gts))"
      by blast
    ultimately show ?thesis
      by (auto simp: ran_filtered_map[OF dmg] set_values_of)
  qed
  have 2: "\<exists>p. field h a ''_id'' = Some p \<and> p \<in> ran (filtered_map h preds ?P)"
    if g: "g \<in> ran (filtered_map h gts ?F)" and a: "a \<in> set (annotations preds)"
      and m: "matched_with h a = Some g" for a g
  proof -
    from g have "g \<in> ?F" by (simp add: ran_filtered_map[OF dmg])
    moreover obtain p where p: "field h a ''_id'' = Some p"
      using data_model_ann(1)[OF dmp a] by (auto simp: has_hashable_iff)
    ultimately have "p \<in> assoc_preds_set h preds ?F"
      unfolding assoc_preds_set_def using a get_matched_Some[OF m] by auto
    then have "p \<in> ?P" by (simp add: filetered_preds_set_def)
    with p a show ?thesis
      by (auto simp: ran_filtered_map[OF dmp])
  qed
  have "enlarge_dataset_to_respect_TIDE h gts preds gts_keep preds_keep
        = Inr (filtered_heap (filtered_heap h gts ?F) preds ?P,
               filtered_data h gts ?F ''filtered_data'',
               filtered_data (filtered_heap h gts ?F) preds ?P ''filtered_data'',
               filtered_map h gts ?F, filtered_map h preds ?P)
      \<and> (\<forall>a\<in>set (annotations preds). \<forall>p g.
            field h a ''_id'' = Some p \<and> p \<in> preds_keep \<and> matched_with h a = Some g
            \<longrightarrow> g \<in> ran (filtered_map h gts ?F))
      \<and> (\<forall>g\<in>ran (filtered_map h gts ?F). \<forall>a\<in>set (annotations preds).
            matched_with h a = Some g
            \<longrightarrow> (\<exists>p. field h a ''_id'' = Some p \<and> p \<in> ran (filtered_map h preds ?P)))"
    using enlarge_ok[OF dmg dmp lk, of gts_keep preds_keep] 1 2 by blast
  then show ?thesis
    apply -
    apply (rule exI)+
    apply assumption
    done
qed

theorem enlarge_closure_witness:
  "invariants store0 gts0 \<and> invariants store0 preds0
   \<and> has_info store0 4 \<and> has_info store0 6
   \<and> matched_with store0 4 = Some (PInt 0) \<and> matched_with store0 6 = None
   \<and> PInt 0 \<in> set (values_of store0 ''_id'' (annotations gts0))
   \<and> (\<exists>h2 gts_enlarged preds_enlarged gts_map preds_map.
      enlarge_dataset_to_respect_TIDE store0 gts0 preds0 {} {PInt 0}
        = Inr (h2, gts_enlarged, preds_enlarged, gts_map, preds_map)
      \<and> PInt 0 \<in> ran gts_map \<and> PInt 0 \<in> ran preds_map)"
proof -
  have v: "PInt 0 \<in> set (values_of store0 ''_id'' (annotations gts0))"
    by (simp add: gts0_def values_of_Cons field_store0)
  have hi: "\<forall>a\<in>set (annotations preds0). has_info store0 a"
    by (simp add: preds0_def has_info_store0)
  have valid: "\<forall>a\<in>set (annotations preds0). \<forall>g. matched_with store0 a = Some g
            \<longrightarrow> g \<in> set (values_of store0 ''_id'' (annotations gts0))"
    using v by (simp add: preds0_def matched_with_store0)
  from enlarge_closure[OF invariants_gts0 invariants_preds0 hi valid, of "{}" "{PInt 0}"]
  obtain h2 gts_enlarged preds_enlarged gts_map preds_map where
    r: "enlarge_dataset_to_respect_TIDE store0 gts0 preds0 {} {PInt 0}
        = Inr (h2, gts_enlarged, preds_enlarged, gts_map, preds_map)"
    and c1: "\<forall>a\<in>set (annotations preds0). \<forall>p g.
            field store0 a ''_id'' = Some p \<and> p \<in> {PInt 0} \<and> matched_with store0 a = Some g
            \<longrightarrow> g \<in> ran gts_map"
    and c2: "\<forall>g\<in>ran gts_map. \<forall>a\<in>set (annotations preds0).
            matched_with store0 a = Some g
            \<longrightarrow> (\<exists>p. field store0 a ''_id'' = Some p \<and> p \<in> ran preds_map)"
    by (elim exE conjE) (rule that; assumption)
  have a4: "4 \<in> set (annotations preds0)" by (simp add: preds0_def)
  from c1[rule_format, OF a4, of "PInt 0" "PInt 0"] have g: "PInt 0 \<in> ran gts_map"
    by (simp add: field_store0 matched_with_store0)
  from c2[rule_format, OF g a4] have p: "PInt 0 \<in> ran preds_map"
    by (simp add: field_store0 matched_with_store0)
  have "\<exists>h2 gts_enlarged preds_enlarged gts_map preds_map.
      enlarge_dataset_to_respect_TIDE store0 gts0 preds0 {} {PInt 0}
        = Inr (h2, gts_enlarged, preds_enlarged, gts_map, preds_map)
      \<and> PInt 0 \<in> ran gts_map \<and> PInt 0 \<in> ran preds_map"
    using r g p by blast
  then show ?thesis
    using invariants_gts0 invariants_preds0 has_info_store0 matched_with_store0 v
    by - (intro conjI; assumption)
qed

text \<open>C2. Enlarger fixpoint: for datasets that satisfy the invariants, each prediction
  having an \<^verbatim>\<open>info\<close> mapping, if the enlarger returns, then running it again, in the
  store it left, on the values of the two id maps it returned, returns the same id maps
  and datasets with the same contents.\<close>

theorem enlarge_fixpoint:
  assumes "invariants h gts" and "invariants h preds"
    and "\<forall>a\<in>set (annotations preds). has_info h a"
    and "enlarge_dataset_to_respect_TIDE h gts preds gts_keep preds_keep
           = Inr (h1, gts_enlarged, preds_enlarged, gts_map, preds_map)"
  shows "\<exists>h2 gts_again preds_again.
      enlarge_dataset_to_respect_TIDE h1 gts preds (ran gts_map) (ran preds_map)
        = Inr (h2, gts_again, preds_again, gts_map, preds_map)
      \<and> same_data h2 gts_again h1 gts_enlarged
      \<and> same_data h2 preds_again h1 preds_enlarged"
proof -
  have dmg: "data_model h gts" and dmp: "data_model h preds"
    using assms(1,2) by (simp_all add: invariants_def)
  have lk: "links_ok h preds"
    by (rule enlarge_run_links[OF dmp assms(3,4)])
  let ?F = "filetered_gts_set h preds gts_keep preds_keep"
  let ?P = "filetered_preds_set h preds gts_keep preds_keep"
  from assms(4) enlarge_ok[OF dmg dmp lk, of gts_keep preds_keep]
  have r: "h1 = filtered_heap (filtered_heap h gts ?F) preds ?P"
    "gts_enlarged = filtered_data h gts ?F ''filtered_data''"
    "preds_enlarged = filtered_data (filtered_heap h gts ?F) preds ?P ''filtered_data''"
    "gts_map = filtered_map h gts ?F" "preds_map = filtered_map h preds ?P"
    by simp_all
  note again = enlarge_again[OF assms(1,2) lk, of gts_keep preds_keep, folded r]
  let ?F' = "filetered_gts_set h1 preds (ran gts_map) (ran preds_map)"
  let ?P' = "filetered_preds_set h1 preds (ran gts_map) (ran preds_map)"
  have "enlarge_dataset_to_respect_TIDE h1 gts preds (ran gts_map) (ran preds_map)
      = Inr (filtered_heap (filtered_heap h1 gts ?F') preds ?P',
             filtered_data h1 gts ?F' ''filtered_data'',
             filtered_data (filtered_heap h1 gts ?F') preds ?P' ''filtered_data'',
             gts_map, preds_map)"
    using enlarge_ok[OF again(5,6,7), of "ran gts_map" "ran preds_map"]
    unfolding again(1,2) .
  with again(3,4) have
    "enlarge_dataset_to_respect_TIDE h1 gts preds (ran gts_map) (ran preds_map)
      = Inr (filtered_heap (filtered_heap h1 gts ?F') preds ?P',
             filtered_data h1 gts ?F' ''filtered_data'',
             filtered_data (filtered_heap h1 gts ?F') preds ?P' ''filtered_data'',
             gts_map, preds_map)
     \<and> same_data (filtered_heap (filtered_heap h1 gts ?F') preds ?P')
           (filtered_data h1 gts ?F' ''filtered_data'') h1 gts_enlarged
     \<and> same_data (filtered_heap (filtered_heap h1 gts ?F') preds ?P')
           (filtered_data (filtered_heap h1 gts ?F') preds ?P' ''filtered_data'') h1 preds_enlarged"
    by - (intro conjI; assumption)
  then show ?thesis
    apply -
    apply (rule exI)+
    apply assumption
    done
qed

theorem enlarge_fixpoint_witness:
  "invariants store0 gts0 \<and> invariants store0 preds0
   \<and> has_info store0 4 \<and> has_info store0 6
   \<and> (\<exists>h1 gts_enlarged preds_enlarged gts_map preds_map.
        enlarge_dataset_to_respect_TIDE store0 gts0 preds0 {} {PInt 0}
          = Inr (h1, gts_enlarged, preds_enlarged, gts_map, preds_map)
        \<and> (\<exists>h2 gts_again preds_again.
              enlarge_dataset_to_respect_TIDE h1 gts0 preds0 (ran gts_map) (ran preds_map)
                = Inr (h2, gts_again, preds_again, gts_map, preds_map)
              \<and> same_data h2 gts_again h1 gts_enlarged
              \<and> same_data h2 preds_again h1 preds_enlarged))"
proof -
  have hi: "\<forall>a\<in>set (annotations preds0). has_info store0 a"
    by (simp add: preds0_def has_info_store0)
  note run = enlarge_ok[OF data_model_gts0 data_model_preds0 links_ok_store0, of "{}" "{PInt 0}"]
  from enlarge_fixpoint[OF invariants_gts0 invariants_preds0 hi run] run
  have "\<exists>h1 gts_enlarged preds_enlarged gts_map preds_map.
        enlarge_dataset_to_respect_TIDE store0 gts0 preds0 {} {PInt 0}
          = Inr (h1, gts_enlarged, preds_enlarged, gts_map, preds_map)
        \<and> (\<exists>h2 gts_again preds_again.
              enlarge_dataset_to_respect_TIDE h1 gts0 preds0 (ran gts_map) (ran preds_map)
                = Inr (h2, gts_again, preds_again, gts_map, preds_map)
              \<and> same_data h2 gts_again h1 gts_enlarged
              \<and> same_data h2 preds_again h1 preds_enlarged)"
    by blast
  then show ?thesis
    using invariants_gts0 invariants_preds0 has_info_store0
    by - (intro conjI; assumption)
qed

text \<open>C10, as amended. The enlarger reads \<^verbatim>\<open>info\<close> of every prediction. First part: when
  the predictions are otherwise well formed (a hashable \<^verbatim>\<open>_id\<close>; \<^verbatim>\<open>info\<close>, where present, a
  mapping whose \<^verbatim>\<open>matched_with\<close> is hashable), if any prediction has no \<^verbatim>\<open>info\<close> the
  enlarger raises KeyError for \<^verbatim>\<open>info\<close>, whatever the keep sets are, empty ones included.
  Second part: a prediction \<open>a\<close> whose \<^verbatim>\<open>info\<close> mapping has no \<^verbatim>\<open>matched_with\<close> raises
  nothing at line 124 and adds nothing to \<^verbatim>\<open>assoc_gts\<close>: the comprehension gives the same
  result with \<open>a\<close> in the dataset and without it. Third part: the same holds at line 128 for
  \<^verbatim>\<open>assoc_preds\<close>, with the set \<^verbatim>\<open>filetered_gts\<close> the enlarger builds, when None is not in
  that set: None is not in \<^verbatim>\<open>gts_keep\<close> and is no prediction's \<^verbatim>\<open>matched_with\<close>.
  Fourth part: when None is in \<^verbatim>\<open>filetered_gts\<close>, line 128 takes the None that
  \<^verbatim>\<open>.get\<close> returns for a match, reads the \<^verbatim>\<open>_id\<close> of \<open>a\<close> and adds it to
  \<^verbatim>\<open>assoc_preds\<close>.\<close>

theorem enlarge_info_field:
  "(list_all (\<lambda>a. has_hashable h ''_id'' a
        \<and> (field h a ''info'' = None \<or> has_info h a \<and> hashable (get_matched h a)))
      (annotations preds)
    \<and> (\<exists>a\<in>set (annotations preds). field h a ''info'' = None)
    \<longrightarrow> enlarge_dataset_to_respect_TIDE h gts preds gts_keep preds_keep
          = Inl (KeyError ''info''))
   \<and> (has_info h a \<and> matched_with h a = None
    \<longrightarrow> gt_link h preds_keep a = Inr None
        \<and> comprehension (gt_link h preds_keep) (xs @ a # ys)
            = comprehension (gt_link h preds_keep) (xs @ ys))
   \<and> (has_info h a \<and> matched_with h a = None
      \<and> PNone \<notin> gts_keep
      \<and> (\<forall>b\<in>set (annotations preds). matched_with h b \<noteq> Some PNone)
      \<and> comprehension (gt_link h preds_keep) (annotations preds) = Inr assoc_gts
    \<longrightarrow> pred_link h (gts_keep \<union> assoc_gts) a = Inr None
        \<and> comprehension (pred_link h (gts_keep \<union> assoc_gts)) (xs @ a # ys)
            = comprehension (pred_link h (gts_keep \<union> assoc_gts)) (xs @ ys))
   \<and> (has_info h a \<and> matched_with h a = None
      \<and> PNone \<in> filetered_gts \<and> field h a ''_id'' = Some i \<and> hashable i
    \<longrightarrow> pred_link h filetered_gts a = Inr (Some i))"
proof (intro conjI impI)
  assume "list_all (\<lambda>a. has_hashable h ''_id'' a
        \<and> (field h a ''info'' = None \<or> has_info h a \<and> hashable (get_matched h a)))
      (annotations preds)
    \<and> (\<exists>a\<in>set (annotations preds). field h a ''info'' = None)"
  then show "enlarge_dataset_to_respect_TIDE h gts preds gts_keep preds_keep
      = Inl (KeyError ''info'')"
    using enlarge_no_info[of h preds gts gts_keep preds_keep] by blast
next
  assume a: "has_info h a \<and> matched_with h a = None"
  then show l: "gt_link h preds_keep a = Inr None"
    using gt_link_unmatched[of h a preds_keep] by blast
  show "comprehension (gt_link h preds_keep) (xs @ a # ys)
      = comprehension (gt_link h preds_keep) (xs @ ys)"
    using l by (rule comprehension_skip)
next
  assume a: "has_info h a \<and> matched_with h a = None
      \<and> PNone \<notin> gts_keep
      \<and> (\<forall>b\<in>set (annotations preds). matched_with h b \<noteq> Some PNone)
      \<and> comprehension (gt_link h preds_keep) (annotations preds) = Inr assoc_gts"
  then have "PNone \<notin> assoc_gts"
    using assoc_gts_no_None[of h preds_keep "annotations preds" assoc_gts] by blast
  with a have n: "PNone \<notin> gts_keep \<union> assoc_gts" by simp
  from a show l: "pred_link h (gts_keep \<union> assoc_gts) a = Inr None"
    using pred_link_unmatched[OF _ _ n, of h a] by blast
  show "comprehension (pred_link h (gts_keep \<union> assoc_gts)) (xs @ a # ys)
      = comprehension (pred_link h (gts_keep \<union> assoc_gts)) (xs @ ys)"
    using l by (rule comprehension_skip)
next
  assume "has_info h a \<and> matched_with h a = None
      \<and> PNone \<in> filetered_gts \<and> field h a ''_id'' = Some i \<and> hashable i"
  then show "pred_link h filetered_gts a = Inr (Some i)"
    using pred_link_None_in[of h a filetered_gts i] by blast
qed

theorem enlarge_info_field_witness:
  "list_all (\<lambda>a. has_hashable store0 ''_id'' a
        \<and> (field store0 a ''info'' = None
             \<or> has_info store0 a \<and> hashable (get_matched store0 a)))
      (annotations preds_raw)
   \<and> (\<exists>a\<in>set (annotations preds_raw). field store0 a ''info'' = None)
   \<and> enlarge_dataset_to_respect_TIDE store0 gts0 preds_raw {} {} = Inl (KeyError ''info'')
   \<and> has_info store0 6 \<and> matched_with store0 6 = None
   \<and> PNone \<notin> {PInt 0}
   \<and> annotations preds0 = [4, 6] \<and> matched_with store0 4 = Some (PInt 0)
   \<and> comprehension (gt_link store0 {PInt 0}) (annotations preds0)
        = Inr (assoc_gts_set store0 preds0 {PInt 0})
   \<and> gt_link store0 {PInt 0} 6 = Inr None
   \<and> comprehension (gt_link store0 {PInt 0}) ([4] @ 6 # [])
        = comprehension (gt_link store0 {PInt 0}) ([4] @ [])
   \<and> pred_link store0 ({PInt 0} \<union> assoc_gts_set store0 preds0 {PInt 0}) 6 = Inr None
   \<and> comprehension (pred_link store0 ({PInt 0} \<union> assoc_gts_set store0 preds0 {PInt 0}))
          ([4] @ 6 # [])
        = comprehension (pred_link store0 ({PInt 0} \<union> assoc_gts_set store0 preds0 {PInt 0}))
          ([4] @ [])
   \<and> PNone \<in> {PNone} \<and> field store0 6 ''_id'' = Some (PInt 1) \<and> hashable (PInt 1)
   \<and> pred_link store0 {PNone} 6 = Inr (Some (PInt 1))"
proof -
  have t: "list_all (\<lambda>a. has_hashable store0 ''_id'' a
        \<and> (field store0 a ''info'' = None
             \<or> has_info store0 a \<and> hashable (get_matched store0 a)))
      (annotations preds_raw)"
    by (simp add: preds_raw_def has_hashable_def field_store0 has_info_store0 get_matched_def
        matched_with_store0)
  have m: "\<exists>a\<in>set (annotations preds_raw). field store0 a ''info'' = None"
    by (simp add: preds_raw_def field_store0)
  have n: "PNone \<notin> {PInt 0}" by simp
  have v: "\<forall>b\<in>set (annotations preds0). matched_with store0 b \<noteq> Some PNone"
    by (simp add: preds0_def matched_with_store0)
  have g: "comprehension (gt_link store0 {PInt 0}) (annotations preds0)
        = Inr (assoc_gts_set store0 preds0 {PInt 0})"
    by (rule assoc_gts_ok[OF data_model_preds0 links_ok_store0])
  note c = enlarge_info_field[where h = store0 and preds = preds_raw and gts = gts0
      and gts_keep = "{}" and preds_keep = "{}"]
    and d = enlarge_info_field[where h = store0 and a = 6 and preds = preds0
      and gts_keep = "{PInt 0}" and preds_keep = "{PInt 0}"
      and assoc_gts = "assoc_gts_set store0 preds0 {PInt 0}" and xs = "[4]" and ys = "[]"]
  from c t m have 1: "enlarge_dataset_to_respect_TIDE store0 gts0 preds_raw {} {}
      = Inl (KeyError ''info'')" by blast
  from d has_info_store0(2) matched_with_store0(2)
  have 2: "gt_link store0 {PInt 0} 6 = Inr None"
    "comprehension (gt_link store0 {PInt 0}) ([4] @ 6 # [])
        = comprehension (gt_link store0 {PInt 0}) ([4] @ [])"
    by blast+
  from d has_info_store0(2) matched_with_store0(2) n v g
  have 3: "pred_link store0 ({PInt 0} \<union> assoc_gts_set store0 preds0 {PInt 0}) 6 = Inr None"
    "comprehension (pred_link store0 ({PInt 0} \<union> assoc_gts_set store0 preds0 {PInt 0}))
          ([4] @ 6 # [])
        = comprehension (pred_link store0 ({PInt 0} \<union> assoc_gts_set store0 preds0 {PInt 0}))
          ([4] @ [])"
    by blast+
  have p: "annotations preds0 = [4, 6]"
    by (simp add: preds0_def)
  have k: "PNone \<in> {PNone}" "hashable (PInt 1)"
    by simp_all
  note e = enlarge_info_field[where h = store0 and a = 6 and filetered_gts = "{PNone}"
      and i = "PInt 1"]
  from e has_info_store0(2) matched_with_store0(2) k field_store0(8)
  have 4: "pred_link store0 {PNone} 6 = Inr (Some (PInt 1))"
    by blast
  show ?thesis
    using t m 1 has_info_store0(2) matched_with_store0(2) n p matched_with_store0(1) g 2 3
      k(1) field_store0(8) k(2) 4
    by - (intro conjI; assumption)
qed

text \<open>C10 as stated fails: with None in \<^verbatim>\<open>gts_keep\<close>, the second prediction of the example
  store, whose \<^verbatim>\<open>info\<close> mapping has no \<^verbatim>\<open>matched_with\<close>, is taken at line 128 and its
  \<^verbatim>\<open>_id\<close> 1 is among the ids of the enlarged predictions, though it is not in
  \<^verbatim>\<open>preds_keep\<close> and matches no ground truth.\<close>

theorem enlarge_unmatched_pulled_in:
  "has_info store0 6 \<and> matched_with store0 6 = None
   \<and> pred_link store0 {PNone} 6 = Inr (Some (PInt 1))
   \<and> (case enlarge_dataset_to_respect_TIDE store0 gts0 preds0 {PNone} {} of
        Inl e \<Rightarrow> False
      | Inr (h2, gts_enlarged, preds_enlarged, gts_map, preds_map) \<Rightarrow>
          PInt 1 \<in> ran preds_map)"
proof -
  have p: "pred_link store0 {PNone} 6 = Inr (Some (PInt 1))"
    by (rule pred_link_None_in[OF has_info_store0(2) matched_with_store0(2) _ field_store0(8)])
      simp_all
  have e: "(case enlarge_dataset_to_respect_TIDE store0 gts0 preds0 {PNone} {} of
        Inl e \<Rightarrow> False
      | Inr (h2, gts_enlarged, preds_enlarged, gts_map, preds_map) \<Rightarrow>
          PInt 1 \<in> ran preds_map)"
    unfolding enlarge_ok[OF data_model_gts0 data_model_preds0 links_ok_store0]
    using unmatched_pulled_in by simp
  show ?thesis
    using has_info_store0(2) matched_with_store0(2) p e
    by - (intro conjI; assumption)
qed


text \<open>C9. The scenario of the spec: on the two records, the first gold with label 5, the
  second predicted with label 5 and confidence 0.9, the importer returns a ground-truth
  dataset of one annotation with \<^verbatim>\<open>_id\<close> 0 and \<^verbatim>\<open>class\<close> 5, and a prediction dataset
  of one annotation with \<^verbatim>\<open>_id\<close> 0, \<^verbatim>\<open>class\<close> 5 and \<^verbatim>\<open>score\<close> 0.9.\<close>

theorem json_to_Data_scenario:
  "\<exists>h gts preds.
     json_to_Data scenario_store scenario_data = Inr (h, gts, preds)
     \<and> annotations gts = [3]
     \<and> field h 3 ''_id'' = Some (PInt 0) \<and> field h 3 ''class'' = Some (PInt 5)
     \<and> annotations preds = [4]
     \<and> field h 4 ''_id'' = Some (PInt 0) \<and> field h 4 ''class'' = Some (PInt 5)
     \<and> field h 4 ''score'' = Some (PFloat ''0.9'')"
  by (simp add: importer_eval scenario_store_def scenario_data_def)

text \<open>C4, at an input where it fails. The second record carries both tags, so it is in both
  lists, and the lists hold the record itself: the loop over the predictions overwrites
  the \<^verbatim>\<open>_id\<close> and the \<^verbatim>\<open>class\<close> the loop over the gold records wrote. The ground-truth
  dataset returned has two annotations with \<^verbatim>\<open>_id\<close> 0, the second with the predicted
  label 3 as its class and not its gold label 2, while its image still lists the ids 0 and
  1 and its classes are still 1 and 2: invariants 1 and 3 fail.\<close>

theorem json_to_Data_both_tags:
  "\<exists>h gts preds.
     json_to_Data both_store both_data = Inr (h, gts, preds)
     \<and> annotations gts = [2, 3]
     \<and> field h 2 ''_id'' = Some (PInt 0)
     \<and> field h 3 ''_id'' = Some (PInt 0)
     \<and> field h 3 ''gold'' = Some (PInt 2)
     \<and> field h 3 ''class'' = Some (PInt 3)
     \<and> (\<exists>img. images gts (PStr ''a'') = Some img \<and> anns img = [PInt 0, PInt 1])
     \<and> \<not> ids_dense h gts
     \<and> \<not> classes_consistent h gts"
proof -
  from json_to_Data_both obtain h gts preds img where
    r: "json_to_Data both_store both_data = Inr (h, gts, preds)"
    and a: "annotations gts = [2, 3]"
    and f: "field h 2 ''_id'' = Some (PInt 0)" "field h 2 ''class'' = Some (PInt 1)"
      "field h 3 ''_id'' = Some (PInt 0)"
      "field h 3 ''gold'' = Some (PInt 2)" "field h 3 ''class'' = Some (PInt 3)"
    and c: "dom (classes gts) = {PInt 1, PInt 2}"
    and i: "images gts (PStr ''a'') = Some img" "anns img = [PInt 0, PInt 1]"
    by (elim exE conjE) (rule that; assumption)
  have d: "\<not> ids_dense h gts"
  proof
    assume "ids_dense h gts"
    from ids_dense_nth[OF this, of 1] a f(3) show False by simp
  qed
  have v: "set (values_of h ''class'' (annotations gts)) = {PInt 1, PInt 3}"
    by (simp add: a values_of_Cons f)
  have k: "\<not> classes_consistent h gts"
  proof
    assume "classes_consistent h gts"
    then have e: "dom (classes gts) = set (values_of h ''class'' (annotations gts))"
      by (simp only: classes_consistent_def)
    have "PInt 3 \<in> set (values_of h ''class'' (annotations gts))"
      by (simp add: v)
    then have "PInt 3 \<in> dom (classes gts)"
      by (simp only: e)
    then show False
      by (simp add: c)
  qed
  from i have "\<exists>img. images gts (PStr ''a'') = Some img \<and> anns img = [PInt 0, PInt 1]"
    by blast
  with r a f(1,3,4,5) d k have
    "json_to_Data both_store both_data = Inr (h, gts, preds)
     \<and> annotations gts = [2, 3]
     \<and> field h 2 ''_id'' = Some (PInt 0)
     \<and> field h 3 ''_id'' = Some (PInt 0)
     \<and> field h 3 ''gold'' = Some (PInt 2)
     \<and> field h 3 ''class'' = Some (PInt 3)
     \<and> (\<exists>img. images gts (PStr ''a'') = Some img \<and> anns img = [PInt 0, PInt 1])
     \<and> \<not> ids_dense h gts
     \<and> \<not> classes_consistent h gts"
    by - (intro conjI; assumption)
  then show ?thesis
    apply -
    apply (rule exI)+
    apply assumption
    done
qed

end
